theory Spec2Isabelle
  imports Complex_Main
begin

section \<open>JavaScript numbers used by the pager\<close>

text \<open>
  A JavaScript number is NaN, an infinity or a finite value. Finite values are modelled
  exactly, as rationals: rounding and the sign of zero are left out. Page indices are
  numbers of this kind, since the public \<^verbatim>\<open>scrollTo\<close> passes its argument on without
  validating or rounding it; a missing argument behaves as NaN. Time stamps and the
  configured duration are finite.
\<close>

datatype jsnum = NaN | NegInf | PosInf | Fin rat

abbreviation js_int :: "int \<Rightarrow> jsnum" where
  "js_int z \<equiv> Fin (of_int z)"

text \<open>Whether a number is an integer.\<close>

fun is_integer :: "jsnum \<Rightarrow> bool" where
  "is_integer (Fin q) = (of_int (floor q) = q)"
| "is_integer x = False"

text \<open>Unary minus, \<^verbatim>\<open>x + y\<close>, \<^verbatim>\<open>x - y\<close> and \<^verbatim>\<open>x * y\<close>.\<close>

fun js_neg :: "jsnum \<Rightarrow> jsnum" where
  "js_neg NaN = NaN"
| "js_neg NegInf = PosInf"
| "js_neg PosInf = NegInf"
| "js_neg (Fin q) = Fin (- q)"

fun js_plus :: "jsnum \<Rightarrow> jsnum \<Rightarrow> jsnum" where
  "js_plus (Fin a) (Fin b) = Fin (a + b)"
| "js_plus NaN y = NaN"
| "js_plus x NaN = NaN"
| "js_plus PosInf NegInf = NaN"
| "js_plus NegInf PosInf = NaN"
| "js_plus PosInf y = PosInf"
| "js_plus x PosInf = PosInf"
| "js_plus NegInf y = NegInf"
| "js_plus x NegInf = NegInf"

definition js_minus :: "jsnum \<Rightarrow> jsnum \<Rightarrow> jsnum" where
  "js_minus x y = js_plus x (js_neg y)"

text \<open>The sign of a number other than NaN, and the product of an infinity with a sign.\<close>

fun js_sign :: "jsnum \<Rightarrow> int" where
  "js_sign NaN = 0"
| "js_sign NegInf = - 1"
| "js_sign PosInf = 1"
| "js_sign (Fin q) = (if q = 0 then 0 else if 0 < q then 1 else - 1)"

definition js_inf :: "int \<Rightarrow> jsnum" where
  "js_inf sg = (if sg = 0 then NaN else if 0 < sg then PosInf else NegInf)"

fun js_times :: "jsnum \<Rightarrow> jsnum \<Rightarrow> jsnum" where
  "js_times (Fin a) (Fin b) = Fin (a * b)"
| "js_times NaN y = NaN"
| "js_times x NaN = NaN"
| "js_times x y = js_inf (js_sign x * js_sign y)"

text \<open>\<^verbatim>\<open>a / b\<close> for finite \<open>a\<close>, \<open>b\<close>: division by zero gives NaN or an infinity.\<close>

definition js_div :: "rat \<Rightarrow> rat \<Rightarrow> jsnum" where
  "js_div a b =
     (if b = 0 then (if a = 0 then NaN else if 0 < a then PosInf else NegInf)
      else Fin (a / b))"

text \<open>
  The comparisons \<^verbatim>\<open>x <= y\<close> and \<^verbatim>\<open>x >= y\<close>: every comparison with NaN is false. The
  strict equality \<^verbatim>\<open>x === c\<close> with a constant \<open>c\<close> other than NaN is equality of the
  modelled values.
\<close>

fun js_le :: "jsnum \<Rightarrow> jsnum \<Rightarrow> bool" where
  "js_le (Fin a) (Fin b) = (a \<le> b)"
| "js_le NaN y = False"
| "js_le x NaN = False"
| "js_le NegInf y = True"
| "js_le x PosInf = True"
| "js_le x y = False"

definition js_ge :: "jsnum \<Rightarrow> jsnum \<Rightarrow> bool" where
  "js_ge x y = js_le y x"

text \<open>\<^verbatim>\<open>Math.min(x, y)\<close> and \<^verbatim>\<open>Math.max(x, y)\<close>: NaN is propagated.\<close>

definition js_min :: "jsnum \<Rightarrow> jsnum \<Rightarrow> jsnum" where
  "js_min x y = (if x = NaN \<or> y = NaN then NaN else if js_le x y then x else y)"

definition js_max :: "jsnum \<Rightarrow> jsnum \<Rightarrow> jsnum" where
  "js_max x y = (if x = NaN \<or> y = NaN then NaN else if js_le x y then y else x)"

text \<open>\<^verbatim>\<open>Math.min(x, 1)\<close> and \<^verbatim>\<open>x < 1\<close>, as used for the progress of an animation.\<close>

definition js_min1 :: "jsnum \<Rightarrow> jsnum" where
  "js_min1 x = (case x of NaN \<Rightarrow> NaN | NegInf \<Rightarrow> NegInf | PosInf \<Rightarrow> Fin 1 | Fin q \<Rightarrow> Fin (min q 1))"

definition js_lt1 :: "jsnum \<Rightarrow> bool" where
  "js_lt1 x = (case x of NaN \<Rightarrow> False | NegInf \<Rightarrow> True | PosInf \<Rightarrow> False | Fin q \<Rightarrow> q < 1)"


section \<open>The throttle utility\<close>

text \<open>
  \<^verbatim>\<open>throttle(fn, time, type)\<close> returns a closure over \<^verbatim>\<open>lastTime\<close> and \<^verbatim>\<open>timer\<close>.
  The closure's variables are the first two fields; the other two are the environment's
  table of pending timeouts (identifier, due time, the arguments the deferred call will
  pass to \<^verbatim>\<open>fn\<close>) and its next identifier. \<^verbatim>\<open>Date.now()\<close> is a parameter \<open>now\<close>.
\<close>

record 'a throttle_state =
  lastTime :: int
  timer :: "nat option"
  timeouts :: "(nat \<times> int \<times> 'a) list"
  nextTimeoutId :: nat

definition throttle_init :: "'a throttle_state" where
  "throttle_init = \<lparr>lastTime = 0, timer = None, timeouts = [], nextTimeoutId = 1\<rparr>"

text \<open>\<^verbatim>\<open>var delay = time || 500\<close> and \<^verbatim>\<open>typeof type === 'undefined' ? true : type\<close>.\<close>

definition throttle_delay :: "int \<Rightarrow> int" where
  "throttle_delay time = (if time = 0 then 500 else time)"

definition throttle_immediate :: "bool option \<Rightarrow> bool" where
  "throttle_immediate type = (case type of None \<Rightarrow> True | Some b \<Rightarrow> b)"

definition clearTimeout :: "nat \<Rightarrow> 'a throttle_state \<Rightarrow> 'a throttle_state" where
  "clearTimeout i st = st\<lparr>timeouts := filter (\<lambda>(j, due, args). j \<noteq> i) (timeouts st)\<rparr>"

text \<open>\<^verbatim>\<open>timer = setTimeout(..., ms)\<close> called at time \<open>now\<close>: due at \<open>now + ms\<close>.\<close>

definition setTimeout :: "int \<Rightarrow> 'a \<Rightarrow> 'a throttle_state \<Rightarrow> 'a throttle_state" where
  "setTimeout due args st =
     st\<lparr>timer := Some (nextTimeoutId st),
        timeouts := timeouts st @ [(nextTimeoutId st, due, args)],
        nextTimeoutId := Suc (nextTimeoutId st)\<rparr>"

text \<open>
  One call of the throttled function at time \<open>now\<close>. The second component is \<open>Some args\<close>
  when \<^verbatim>\<open>fn\<close> is invoked synchronously by this call, \<open>None\<close> when it is not.
\<close>

definition throttled :: "int \<Rightarrow> bool \<Rightarrow> int \<Rightarrow> 'a \<Rightarrow> 'a throttle_state \<Rightarrow> 'a throttle_state \<times> 'a option" where
  "throttled delay immediate now args st =
     (if immediate \<and> lastTime st = 0 then (st\<lparr>lastTime := now\<rparr>, Some args)
      else if now - lastTime st < delay then
        (let st1 = (case timer st of Some i \<Rightarrow> clearTimeout i st | None \<Rightarrow> st)
         in (setTimeout (now + (delay - (now - lastTime st))) args st1, None))
      else (st\<lparr>lastTime := now\<rparr>, Some args))"

text \<open>
  The environment runs a pending timeout that is due at time \<open>now\<close>: the callback sets
  \<^verbatim>\<open>lastTime = Date.now()\<close> and invokes \<^verbatim>\<open>fn\<close> with the deferred arguments.
\<close>

fun take_due :: "int \<Rightarrow> (nat \<times> int \<times> 'a) list \<Rightarrow> ('a \<times> (nat \<times> int \<times> 'a) list) option" where
  "take_due now [] = None"
| "take_due now ((i, due, args) # ts) =
     (if due \<le> now then Some (args, ts)
      else (case take_due now ts of None \<Rightarrow> None | Some (a, ts') \<Rightarrow> Some (a, (i, due, args) # ts')))"

definition timeout_fires :: "int \<Rightarrow> 'a throttle_state \<Rightarrow> 'a throttle_state \<times> 'a option" where
  "timeout_fires now st =
     (case take_due now (timeouts st) of
        None \<Rightarrow> (st, None)
      | Some (args, ts) \<Rightarrow> (st\<lparr>timeouts := ts, lastTime := now\<rparr>, Some args))"

text \<open>
  A throttle on its own, driven by a trace of calls and timer ticks; the result lists the
  invocations of \<^verbatim>\<open>fn\<close> in order, each with the time at which it happened.
\<close>

datatype 'a throttle_event = Call int 'a | Tick int

fun throttle_step :: "int \<Rightarrow> bool \<Rightarrow> 'a throttle_event \<Rightarrow> 'a throttle_state \<Rightarrow> 'a throttle_state \<times> (int \<times> 'a) list" where
  "throttle_step delay immediate (Call now args) st =
     (case throttled delay immediate now args st of
        (st', None) \<Rightarrow> (st', [])
      | (st', Some a) \<Rightarrow> (st', [(now, a)]))"
| "throttle_step delay immediate (Tick now) st =
     (case timeout_fires now st of
        (st', None) \<Rightarrow> (st', [])
      | (st', Some a) \<Rightarrow> (st', [(now, a)]))"

fun throttle_run :: "int \<Rightarrow> bool \<Rightarrow> 'a throttle_event list \<Rightarrow> 'a throttle_state \<Rightarrow> 'a throttle_state \<times> (int \<times> 'a) list" where
  "throttle_run delay immediate [] st = (st, [])"
| "throttle_run delay immediate (e # es) st =
     (case throttle_step delay immediate e st of
        (st1, out1) \<Rightarrow> (case throttle_run delay immediate es st1 of (st2, out2) \<Rightarrow> (st2, out1 @ out2)))"


section \<open>The document: child nodes and event listeners\<close>

text \<open>
  The container's children are the original panels, numbered in document order, and the two
  clones that \<^verbatim>\<open>scrollPager\<close> may insert. \<^verbatim>\<open>removeChild\<close> throws
  \<^verbatim>\<open>NotFoundError\<close> when the node is not a child of the container. The only call of
  \<^verbatim>\<open>insertBefore\<close> names the first child as its reference node.
\<close>

datatype node = Original nat | FirstClone | LastClone

datatype dom_error = NotFoundError

definition insertBefore :: "node \<Rightarrow> node \<Rightarrow> node list \<Rightarrow> node list" where
  "insertBefore new ref cs = takeWhile (\<lambda>c. c \<noteq> ref) cs @ new # dropWhile (\<lambda>c. c \<noteq> ref) cs"

definition appendChild :: "node \<Rightarrow> node list \<Rightarrow> node list" where
  "appendChild new cs = cs @ [new]"

definition removeChild :: "node \<Rightarrow> node list \<Rightarrow> dom_error + node list" where
  "removeChild n cs = (if n \<in> set cs then Inr (remove1 n cs) else Inl NotFoundError)"

text \<open>
  A listener is identified by its event type and by the function object that was registered.
  \<open>WheelArrow\<close> is the anonymous arrow function passed to
  \<^verbatim>\<open>containerEl.addEventListener('wheel', (e) => {...})\<close>; \<open>ThrottledWheel\<close> is the
  function object \<^verbatim>\<open>throttledWheel\<close> returned by \<^verbatim>\<open>throttle\<close>.
\<close>

datatype event_type = EvWheel | EvTouchStart | EvTouchMove | EvTouchEnd

datatype handler = WheelArrow | ThrottledWheel | HandleTouchStart | HandleTouchMove | HandleTouchEnd

definition addEventListener :: "event_type \<Rightarrow> handler \<Rightarrow> (event_type \<times> handler) list \<Rightarrow> (event_type \<times> handler) list" where
  "addEventListener ty h ls = (if (ty, h) \<in> set ls then ls else ls @ [(ty, h)])"

definition removeEventListener :: "event_type \<Rightarrow> handler \<Rightarrow> (event_type \<times> handler) list \<Rightarrow> (event_type \<times> handler) list" where
  "removeEventListener ty h ls = filter (\<lambda>l. l \<noteq> (ty, h)) ls"


section \<open>The pager: configuration and state\<close>

datatype scroll_direction = Vertical | Horizontal

text \<open>
  The merged \<^verbatim>\<open>config\<close> object. The two callbacks are opaque to the pager: the model keeps
  whether each one is a function and logs every call with its arguments. A configured
  \<^verbatim>\<open>beforeChange\<close> returns a thenable, which the environment settles later.
\<close>

record config =
  duration :: rat
  direction :: scroll_direction
  infinite :: bool
  throttleTime :: int
  sensitivity :: rat
  hasBeforeChange :: bool
  hasAfterChange :: bool

definition default_config :: config where
  "default_config =
     \<lparr>duration = 800, direction = Vertical, infinite = True, throttleTime = 800,
      sensitivity = 1, hasBeforeChange = False, hasAfterChange = False\<rparr>"

text \<open>\<^verbatim>\<open>page.style.transition\<close> is either \<^verbatim>\<open>'none'\<close> or the transform transition.\<close>

datatype transition_css = TransitionNone | TransitionTransform

record page_style =
  transition :: transition_css
  transform :: jsnum

record wheel_event =
  deltaX :: rat
  deltaY :: rat

text \<open>
  The closure variables of one \<^verbatim>\<open>scrollPager\<close> call, the part of the document it touches,
  and the asynchronous work it has handed to the environment:
  \<^item> \<open>hooks\<close>: the continuations registered with \<^verbatim>\<open>beforeChangePromise.then\<close> that have not
    run yet, each with the \<^verbatim>\<open>isInstant\<close> it captured and whether the promise came from a
    configured \<^verbatim>\<open>beforeChange\<close> (otherwise it is \<^verbatim>\<open>Promise.resolve()\<close>);
  \<^item> \<open>rafs\<close>: the callbacks registered with \<^verbatim>\<open>requestAnimationFrame\<close>, each with its
    identifier and the \<^verbatim>\<open>needsReset\<close> and \<^verbatim>\<open>resetIndex\<close> captured by the continuation
    that waits for the animation;
  \<^item> \<open>beforeLog\<close>, \<open>afterLog\<close>: the calls of the two configured callbacks.
\<close>

record pager =
  cfg :: config
  originalPages :: "node list"
  pages :: "node list"
  children :: "node list"
  listeners :: "(event_type \<times> handler) list"
  styles :: "page_style list"
  currentIndex :: jsnum
  isAnimating :: bool
  animationFrameId :: "nat option"
  startTimestamp :: "rat option"
  startPosition :: jsnum
  targetPosition :: jsnum
  startTouch :: "(rat \<times> rat \<times> int) option"
  throttle :: "wheel_event throttle_state"
  hooks :: "(bool \<times> bool) list"
  rafs :: "(nat \<times> bool \<times> jsnum) list"
  nextRafId :: nat
  beforeLog :: "(jsnum \<times> jsnum) list"
  afterLog :: "jsnum list"


section \<open>The pager: inner functions\<close>

definition cancelAnimationFrame :: "nat option \<Rightarrow> pager \<Rightarrow> pager" where
  "cancelAnimationFrame h s =
     (case h of None \<Rightarrow> s | Some i \<Rightarrow> s\<lparr>rafs := filter (\<lambda>(j, nr, ri). j \<noteq> i) (rafs s)\<rparr>)"

text \<open>\<^verbatim>\<open>animationFrameId = requestAnimationFrame(animate)\<close>.\<close>

definition requestAnimationFrame :: "bool \<Rightarrow> jsnum \<Rightarrow> pager \<Rightarrow> pager" where
  "requestAnimationFrame nr ri s =
     s\<lparr>animationFrameId := Some (nextRafId s),
       rafs := rafs s @ [(nextRafId s, nr, ri)],
       nextRafId := Suc (nextRafId s)\<rparr>"

definition initPages :: "pager \<Rightarrow> pager" where
  "initPages s =
     (let s1 = cancelAnimationFrame (animationFrameId s) s
      in s1\<lparr>styles := map (\<lambda>index. \<lparr>transition = TransitionNone,
                                     transform = js_times (js_minus (js_int (int index)) (currentIndex s1))
                                                   (js_int 100)\<rparr>)
                          [0..<length (pages s1)]\<rparr>)"

definition getOriginalIndex :: "pager \<Rightarrow> jsnum \<Rightarrow> jsnum" where
  "getOriginalIndex s index =
     (if \<not> infinite (cfg s) then index
      else if js_le index (js_int 0) then js_int (int (length (originalPages s)) - 1)
      else if js_ge index (js_int (int (length (pages s)) - 1)) then js_int 0
      else js_minus index (js_int 1))"

text \<open>The translate value of page \<open>i\<close> in \<^verbatim>\<open>updatePagesPosition(isInstant, progress)\<close>.\<close>

definition translateValue :: "pager \<Rightarrow> bool \<Rightarrow> jsnum \<Rightarrow> nat \<Rightarrow> jsnum" where
  "translateValue s isInstant progress i =
     (if isInstant \<or> progress = Fin 1
      then js_times (js_minus (js_int (int i)) (currentIndex s)) (js_int 100)
      else (let startValue = js_times (js_minus (js_int (int i)) (startPosition s)) (js_int 100);
                endValue = js_times (js_minus (js_int (int i)) (targetPosition s)) (js_int 100)
            in js_plus startValue (js_times (js_minus endValue startValue) progress)))"

definition updatePagesPosition :: "bool \<Rightarrow> jsnum \<Rightarrow> pager \<Rightarrow> pager" where
  "updatePagesPosition isInstant progress s =
     s\<lparr>styles := map (\<lambda>i. \<lparr>transition = (if isInstant then TransitionNone else TransitionTransform),
                          transform = translateValue s isInstant progress i\<rparr>)
                    [0..<length (pages s)]\<rparr>"

definition triggerAfterChange :: "pager \<Rightarrow> pager" where
  "triggerAfterChange s =
     (if hasAfterChange (cfg s)
      then s\<lparr>afterLog := afterLog s @ [getOriginalIndex s (currentIndex s)]\<rparr>
      else s)"

text \<open>
  \<^verbatim>\<open>scrollTo(index, isInstant)\<close> up to the point where it returns: the guard, the clamped
  assignment, the call of \<^verbatim>\<open>beforeChange\<close>, and the registration of the continuation.
\<close>

definition scrollTo :: "jsnum \<Rightarrow> bool \<Rightarrow> pager \<Rightarrow> pager" where
  "scrollTo index isInstant s =
     (if isAnimating s then s
      else
        (let prevIndex = currentIndex s;
             s1 = s\<lparr>currentIndex :=
                      js_max (js_int 0) (js_min index (js_int (int (length (pages s)) - 1))),
                    isAnimating := True\<rparr>;
             s2 = (if hasBeforeChange (cfg s1)
                   then s1\<lparr>beforeLog := beforeLog s1 @
                             [(getOriginalIndex s1 prevIndex, getOriginalIndex s1 (currentIndex s1))]\<rparr>
                   else s1)
         in s2\<lparr>hooks := hooks s2 @ [(isInstant, hasBeforeChange (cfg s2))]\<rparr>))"

text \<open>
  The two callbacks passed to \<^verbatim>\<open>animateScroll(isInstant).then\<close>, run when the animation's
  promise resolves.
\<close>

definition scrollDone :: "bool \<Rightarrow> jsnum \<Rightarrow> pager \<Rightarrow> pager" where
  "scrollDone needsReset resetIndex s =
     (if needsReset
      then triggerAfterChange
             (updatePagesPosition True (Fin 1) (s\<lparr>isAnimating := False, currentIndex := resetIndex\<rparr>))
      else triggerAfterChange (s\<lparr>isAnimating := False\<rparr>))"

text \<open>
  \<^verbatim>\<open>animateScroll(isInstant)\<close> together with the continuation that waits for it. When
  \<^verbatim>\<open>isInstant\<close> holds the promise is resolved at once and the continuation runs in the
  same turn; otherwise the first animation frame is requested.
\<close>

definition animateScroll :: "bool \<Rightarrow> bool \<Rightarrow> jsnum \<Rightarrow> pager \<Rightarrow> pager" where
  "animateScroll isInstant needsReset resetIndex s =
     (if isInstant then scrollDone needsReset resetIndex (updatePagesPosition True (Fin 1) s)
      else requestAnimationFrame needsReset resetIndex
             (s\<lparr>startTimestamp := None,
                startPosition := currentIndex s,
                targetPosition := currentIndex s\<rparr>))"

text \<open>The continuation of \<^verbatim>\<open>beforeChangePromise.then\<close>, run when the promise is fulfilled.\<close>

definition afterBeforeChange :: "bool \<Rightarrow> pager \<Rightarrow> pager" where
  "afterBeforeChange isInstant s =
     (if infinite (cfg s) \<and> length (pages s) > 1
      then (if js_ge (currentIndex s) (js_int (int (length (pages s)) - 1))
            then animateScroll isInstant True (js_int 1) s
            else if js_le (currentIndex s) (js_int 0)
            then animateScroll isInstant True (js_int (int (length (pages s)) - 2)) s
            else animateScroll isInstant False (currentIndex s) s)
      else animateScroll isInstant False (currentIndex s) s)"

text \<open>
  The \<open>k\<close>-th pending \<^verbatim>\<open>beforeChange\<close> promise settles. A rejection never runs the
  continuation, which was registered without a rejection handler.
  \<^verbatim>\<open>Promise.resolve()\<close> cannot reject, so that event leaves the state as it is.
\<close>

definition hookSettles :: "nat \<Rightarrow> bool \<Rightarrow> pager \<Rightarrow> pager" where
  "hookSettles k fulfilled s =
     (if k < length (hooks s) then
        (case hooks s ! k of
           (isInstant, configured) \<Rightarrow>
             (let s1 = s\<lparr>hooks := take k (hooks s) @ drop (Suc k) (hooks s)\<rparr>
              in if fulfilled then afterBeforeChange isInstant s1
                 else if configured then s1
                 else s))
      else s)"

text \<open>The frame callback \<^verbatim>\<open>animate(timestamp)\<close> of one animation.\<close>

definition animate :: "rat \<Rightarrow> bool \<Rightarrow> jsnum \<Rightarrow> pager \<Rightarrow> pager" where
  "animate timestamp needsReset resetIndex s =
     (let start = (case startTimestamp s of None \<Rightarrow> timestamp
                   | Some t \<Rightarrow> if t = 0 then timestamp else t);
          s1 = s\<lparr>startTimestamp := Some start\<rparr>;
          progress = js_min1 (js_div (timestamp - start) (duration (cfg s1)));
          s2 = updatePagesPosition False progress s1
      in if js_lt1 progress then requestAnimationFrame needsReset resetIndex s2
         else scrollDone needsReset resetIndex s2)"

text \<open>The environment renders a frame: every registered callback runs once, in order.\<close>

definition animationFrame :: "rat \<Rightarrow> pager \<Rightarrow> pager" where
  "animationFrame timestamp s =
     foldl (\<lambda>st (i, nr, ri). animate timestamp nr ri st) (s\<lparr>rafs := []\<rparr>) (rafs s)"


section \<open>The pager: input handlers\<close>

definition handleWheel :: "wheel_event \<Rightarrow> pager \<Rightarrow> pager" where
  "handleWheel e s =
     (if isAnimating s then s
      else
        (let delta = (if direction (cfg s) = Vertical then deltaY e * sensitivity (cfg s)
                      else deltaX e * sensitivity (cfg s));
             dir = (if delta > 0 then 1 else - 1 :: int)
         in if \<not> infinite (cfg s) \<and>
               ((dir < 0 \<and> currentIndex s = js_int 0) \<or>
                (dir > 0 \<and> currentIndex s = js_int (int (length (originalPages s)) - 1)))
            then s
            else scrollTo (js_plus (currentIndex s) (js_int dir)) False s))"

text \<open>
  \<^verbatim>\<open>throttledWheel = throttle(handleWheel, config.throttleTime, true)\<close>, called at time
  \<open>now\<close>. \<^verbatim>\<open>handleWheel\<close> does not read the throttle's variables, so the order of the
  assignment to \<^verbatim>\<open>lastTime\<close> and the call does not matter.
\<close>

definition throttledWheel :: "int \<Rightarrow> wheel_event \<Rightarrow> pager \<Rightarrow> pager" where
  "throttledWheel now e s =
     (case throttled (throttle_delay (throttleTime (cfg s))) (throttle_immediate (Some True)) now e (throttle s) of
        (t, None) \<Rightarrow> s\<lparr>throttle := t\<rparr>
      | (t, Some a) \<Rightarrow> handleWheel a (s\<lparr>throttle := t\<rparr>))"

text \<open>The deferred call of the throttle, when its timeout is due.\<close>

definition wheelTimeout :: "int \<Rightarrow> pager \<Rightarrow> pager" where
  "wheelTimeout now s =
     (case timeout_fires now (throttle s) of
        (t, None) \<Rightarrow> s\<lparr>throttle := t\<rparr>
      | (t, Some a) \<Rightarrow> handleWheel a (s\<lparr>throttle := t\<rparr>))"

text \<open>The arrow function registered for \<^verbatim>\<open>'wheel'\<close>.\<close>

definition wheelListener :: "int \<Rightarrow> wheel_event \<Rightarrow> pager \<Rightarrow> pager" where
  "wheelListener now e s =
     (if \<not> infinite (cfg s) then
        (let delta = (if direction (cfg s) = Vertical then deltaY e else deltaX e);
             dir = (if delta > 0 then 1 else - 1 :: int)
         in if (dir < 0 \<and> currentIndex s = js_int 0) \<or>
               (dir > 0 \<and> currentIndex s = js_int (int (length (originalPages s)) - 1))
            then s
            else throttledWheel now e s)
      else throttledWheel now e s)"

record touch =
  clientX :: rat
  clientY :: rat

definition handleTouchStart :: "int \<Rightarrow> touch \<Rightarrow> pager \<Rightarrow> pager" where
  "handleTouchStart now t s =
     (if isAnimating s then s else s\<lparr>startTouch := Some (clientX t, clientY t, now)\<rparr>)"

text \<open>\<^verbatim>\<open>handleTouchMove\<close> only decides whether to call \<^verbatim>\<open>preventDefault\<close> on the event.\<close>

definition handleTouchMove :: "touch \<Rightarrow> pager \<Rightarrow> pager" where
  "handleTouchMove t s = s"

text \<open>
  \<^verbatim>\<open>handleTouchEnd\<close> at time \<open>now\<close>, with \<^verbatim>\<open>window.innerWidth\<close> and
  \<^verbatim>\<open>window.innerHeight\<close> as parameters.
\<close>

definition swipeDirection :: "int \<Rightarrow> rat \<Rightarrow> rat \<Rightarrow> int" where
  "swipeDirection deltaTime distance extent =
     (let isQuickSwipe = (deltaTime < 300 \<and> \<bar>distance\<bar> > 50)
      in if isQuickSwipe \<or> \<bar>distance\<bar> > extent / 3
         then (if distance > 0 then 1 else - 1)
         else 0)"

definition handleTouchEnd :: "int \<Rightarrow> touch \<Rightarrow> rat \<Rightarrow> rat \<Rightarrow> pager \<Rightarrow> pager" where
  "handleTouchEnd now t innerWidth innerHeight s =
     (case startTouch s of
        None \<Rightarrow> s
      | Some (x0, y0, time0) \<Rightarrow>
          if isAnimating s then s
          else
            (let deltaTime = now - time0;
                 dX = clientX t - x0;
                 dY = clientY t - y0;
                 dir = (if direction (cfg s) = Vertical then swipeDirection deltaTime dY innerHeight
                        else swipeDirection deltaTime dX innerWidth);
                 s1 = (if dir \<noteq> 0 then scrollTo (js_plus (currentIndex s) (js_int dir)) False s
                       else s)
             in s1\<lparr>startTouch := None\<rparr>))"


section \<open>The pager: construction and public interface\<close>

text \<open>
  \<^verbatim>\<open>scrollPager(container, options)\<close>. The container is \<open>None\<close> when no element is found
  and \<open>Some n\<close> for an element with \<open>n\<close> children. The function returns nothing when the
  container is missing or empty.
\<close>

definition scrollPager :: "nat option \<Rightarrow> config \<Rightarrow> pager option" where
  "scrollPager container config =
     (case container of
        None \<Rightarrow> None
      | Some n \<Rightarrow>
          if n = 0 then None
          else
            (let orig = map Original [0..<n];
                 cloned = (infinite config \<and> length orig > 1)
             in Some (initPages
                  \<lparr>cfg = config,
                   originalPages = orig,
                   pages = (if cloned then LastClone # orig @ [FirstClone] else orig),
                   children = (if cloned
                               then appendChild FirstClone (insertBefore LastClone (orig ! 0) orig)
                               else orig),
                   listeners =
                     addEventListener EvTouchEnd HandleTouchEnd
                       (addEventListener EvTouchMove HandleTouchMove
                         (addEventListener EvTouchStart HandleTouchStart
                           (addEventListener EvWheel WheelArrow []))),
                   styles = [],
                   currentIndex = (if infinite config then js_int 1 else js_int 0),
                   isAnimating = False,
                   animationFrameId = None,
                   startTimestamp = None,
                   startPosition = js_int 0,
                   targetPosition = js_int 0,
                   startTouch = None,
                   throttle = throttle_init,
                   hooks = [],
                   rafs = [],
                   nextRafId = 1,
                   beforeLog = [],
                   afterLog = []\<rparr>)))"

text \<open>\<^verbatim>\<open>next\<close> and \<^verbatim>\<open>prev\<close>, with their local constants \<^verbatim>\<open>nextIndex\<close> and \<^verbatim>\<open>prevIndex\<close>.\<close>

definition nextIndex :: "pager \<Rightarrow> jsnum" where
  "nextIndex s =
     (if infinite (cfg s) then js_plus (currentIndex s) (js_int 1)
      else js_min (js_plus (currentIndex s) (js_int 1)) (js_int (int (length (originalPages s)) - 1)))"

definition "next" :: "pager \<Rightarrow> pager" where
  "next s = scrollTo (nextIndex s) False s"

definition prevIndex :: "pager \<Rightarrow> jsnum" where
  "prevIndex s =
     (if infinite (cfg s) then js_minus (currentIndex s) (js_int 1)
      else js_max (js_minus (currentIndex s) (js_int 1)) (js_int 0))"

definition prev :: "pager \<Rightarrow> pager" where
  "prev s = scrollTo (prevIndex s) False s"

text \<open>
  The public \<^verbatim>\<open>scrollTo: (index) => scrollTo(config.infinite ? index + 1 : index)\<close>. Its
  argument is any number.
\<close>

definition toVisualSeed :: "pager \<Rightarrow> jsnum \<Rightarrow> jsnum" where
  "toVisualSeed s index = (if infinite (cfg s) then js_plus index (js_int 1) else index)"

definition api_scrollTo :: "jsnum \<Rightarrow> pager \<Rightarrow> pager" where
  "api_scrollTo index s = scrollTo (toVisualSeed s index) False s"

definition getCurrentIndex :: "pager \<Rightarrow> jsnum" where
  "getCurrentIndex s = getOriginalIndex s (currentIndex s)"

definition getTotalPages :: "pager \<Rightarrow> nat" where
  "getTotalPages s = length (originalPages s)"

text \<open>
  \<^verbatim>\<open>destroy()\<close>. The second component is the exception that leaves the call, if any; the
  first is the state at that point.
\<close>

definition destroy :: "pager \<Rightarrow> pager \<times> dom_error option" where
  "destroy s =
     (let s1 = cancelAnimationFrame (animationFrameId s) s;
          s2 = s1\<lparr>listeners :=
                    removeEventListener EvTouchEnd HandleTouchEnd
                      (removeEventListener EvTouchMove HandleTouchMove
                        (removeEventListener EvTouchStart HandleTouchStart
                          (removeEventListener EvWheel ThrottledWheel (listeners s1))))\<rparr>
      in if infinite (cfg s2) \<and> length (pages s2) > length (originalPages s2) then
           (case removeChild (pages s2 ! (length (pages s2) - 1)) (children s2) of
              Inl err \<Rightarrow> (s2, Some err)
            | Inr cs \<Rightarrow>
                (case removeChild (pages s2 ! 0) cs of
                   Inl err \<Rightarrow> (s2\<lparr>children := cs\<rparr>, Some err)
                 | Inr cs' \<Rightarrow> (s2\<lparr>children := cs'\<rparr>, None)))
         else (s2, None))"


section \<open>The pager as a transition system\<close>

text \<open>
  Everything that can happen to a pager: a call of its public interface, an input event
  dispatched to the container, a due timeout of the wheel throttle, the settling of a pending
  \<^verbatim>\<open>beforeChange\<close> promise, and an animation frame.
\<close>

datatype dom_event =
    WheelEv int wheel_event
  | TouchStartEv int touch
  | TouchMoveEv touch
  | TouchEndEv int touch rat rat

fun event_type_of :: "dom_event \<Rightarrow> event_type" where
  "event_type_of (WheelEv now e) = EvWheel"
| "event_type_of (TouchStartEv now t) = EvTouchStart"
| "event_type_of (TouchMoveEv t) = EvTouchMove"
| "event_type_of (TouchEndEv now t w h) = EvTouchEnd"

fun runHandler :: "handler \<Rightarrow> dom_event \<Rightarrow> pager \<Rightarrow> pager" where
  "runHandler WheelArrow (WheelEv now e) s = wheelListener now e s"
| "runHandler ThrottledWheel (WheelEv now e) s = throttledWheel now e s"
| "runHandler HandleTouchStart (TouchStartEv now t) s = handleTouchStart now t s"
| "runHandler HandleTouchMove (TouchMoveEv t) s = handleTouchMove t s"
| "runHandler HandleTouchEnd (TouchEndEv now t w h) s = handleTouchEnd now t w h s"
| "runHandler h ev s = s"

definition dispatch :: "dom_event \<Rightarrow> pager \<Rightarrow> pager" where
  "dispatch ev s =
     foldl (\<lambda>st (ty, h). if ty = event_type_of ev then runHandler h ev st else st) s (listeners s)"

datatype event =
    ApiNext
  | ApiPrev
  | ApiScrollTo jsnum
  | ApiDestroy
  | Dom dom_event
  | Timeout int
  | HookSettles nat bool
  | AnimationFrame rat

fun step :: "pager \<Rightarrow> event \<Rightarrow> pager" where
  "step s ApiNext = next s"
| "step s ApiPrev = prev s"
| "step s (ApiScrollTo index) = api_scrollTo index s"
| "step s ApiDestroy = fst (destroy s)"
| "step s (Dom ev) = dispatch ev s"
| "step s (Timeout now) = wheelTimeout now s"
| "step s (HookSettles k fulfilled) = hookSettles k fulfilled s"
| "step s (AnimationFrame timestamp) = animationFrame timestamp s"

definition run :: "pager \<Rightarrow> event list \<Rightarrow> pager" where
  "run s evs = foldl step s evs"

inductive reachable :: "config \<Rightarrow> nat \<Rightarrow> pager \<Rightarrow> bool" for c :: config and n :: nat where
  reachable_init: "scrollPager (Some n) c = Some s \<Longrightarrow> reachable c n s"
| reachable_step: "reachable c n s \<Longrightarrow> reachable c n (step s e)"

text \<open>
  The states reached when every argument of the public \<^verbatim>\<open>scrollTo\<close> is an integer; all
  other events are as before.
\<close>

fun integral_event :: "event \<Rightarrow> bool" where
  "integral_event (ApiScrollTo index) = is_integer index"
| "integral_event e = True"

inductive reachable_integral :: "config \<Rightarrow> nat \<Rightarrow> pager \<Rightarrow> bool" for c :: config and n :: nat where
  integral_init: "scrollPager (Some n) c = Some s \<Longrightarrow> reachable_integral c n s"
| integral_step: "reachable_integral c n s \<Longrightarrow> integral_event e \<Longrightarrow> reachable_integral c n (step s e)"


section \<open>Notions used in the statements\<close>

text \<open>The length of \<^verbatim>\<open>pages\<close> that the constructor builds for \<open>n\<close> original panels.\<close>

definition pages_length :: "config \<Rightarrow> nat \<Rightarrow> nat" where
  "pages_length c n = (if infinite c \<and> n > 1 then n + 2 else n)"

text \<open>
  The two index mappings in the words of the specification: with wraparound, visual index
  \<open>0\<close> is logical \<open>n - 1\<close>, visual index \<open>n + 1\<close> is logical \<open>0\<close>, every other visual
  index \<open>v\<close> is logical \<open>v - 1\<close>, and the seed of logical \<open>k\<close> is \<open>k + 1\<close>; without
  wraparound both are the identity.
\<close>

definition toLogical_spec :: "bool \<Rightarrow> nat \<Rightarrow> int \<Rightarrow> int" where
  "toLogical_spec wraparound n visualIndex =
     (if wraparound
      then (if visualIndex = 0 then int n - 1
            else if visualIndex = int n + 1 then 0
            else visualIndex - 1)
      else visualIndex)"

definition toVisualSeed_spec :: "bool \<Rightarrow> int \<Rightarrow> int" where
  "toVisualSeed_spec wraparound k = (if wraparound then k + 1 else k)"

text \<open>
  A transition is in flight when a \<^verbatim>\<open>beforeChange\<close> continuation or an animation frame
  callback is pending.
\<close>

definition inFlight :: "pager \<Rightarrow> bool" where
  "inFlight s \<longleftrightarrow> hooks s \<noteq> [] \<or> rafs s \<noteq> []"

text \<open>
  The clamp of \<^verbatim>\<open>scrollTo\<close>, \<^verbatim>\<open>Math.max(0, Math.min(index, pages.length - 1))\<close>, for a
  visual sequence of length \<open>len\<close>.
\<close>

definition clamped :: "nat \<Rightarrow> jsnum \<Rightarrow> jsnum" where
  "clamped len index = js_max (js_int 0) (js_min index (js_int (int len - 1)))"

text \<open>
  \<open>interior n v\<close>: with \<open>n + 2\<close> slots, neither of the two tests for a sentinel slot holds
  of the visual index \<open>v\<close>.
\<close>

definition interior :: "nat \<Rightarrow> jsnum \<Rightarrow> bool" where
  "interior n v \<longleftrightarrow> \<not> js_le v (js_int 0) \<and> \<not> js_ge v (js_int (int n + 1))"

text \<open>
  The invariant of all reachable states of a pager built from \<open>n\<close> panels with
  configuration \<open>c\<close>. \<open>raf_ok\<close> constrains what a pending frame callback has captured,
  given the current visual index \<open>v\<close>.
\<close>

definition raf_ok :: "config \<Rightarrow> nat \<Rightarrow> jsnum \<Rightarrow> nat \<times> bool \<times> jsnum \<Rightarrow> bool" where
  "raf_ok c n v r =
     (case r of (i, nr, ri) \<Rightarrow>
        infinite c \<and> 1 < n \<longrightarrow> (if nr then interior n ri else interior n v))"

definition pager_inv :: "config \<Rightarrow> nat \<Rightarrow> pager \<Rightarrow> bool" where
  "pager_inv c n s \<longleftrightarrow>
     cfg s = c \<and> 0 < n \<and> length (originalPages s) = n \<and> length (pages s) = pages_length c n \<and>
     length (hooks s) + length (rafs s) \<le> 1 \<and>
     (hooks s \<noteq> [] \<or> rafs s \<noteq> [] \<longrightarrow> isAnimating s) \<and>
     (infinite c \<and> 1 < n \<and> \<not> isAnimating s \<longrightarrow> interior n (currentIndex s)) \<and>
     (\<forall>r \<in> set (rafs s). raf_ok c n (currentIndex s) r)"

text \<open>
  The further invariant of the states reached with integer arguments only: the visual index
  is an integer offset into the visual sequence, or still the initial index of a single
  panel with wraparound, and a pending reset leads to such an offset.
\<close>

definition int_slot :: "config \<Rightarrow> nat \<Rightarrow> jsnum \<Rightarrow> bool" where
  "int_slot c n v \<longleftrightarrow> (\<exists>z. v = js_int z \<and> 0 \<le> z \<and> z < int (pages_length c n))"

definition raf_int :: "config \<Rightarrow> nat \<Rightarrow> nat \<times> bool \<times> jsnum \<Rightarrow> bool" where
  "raf_int c n r = (case r of (i, nr, ri) \<Rightarrow> nr \<longrightarrow> int_slot c n ri)"

definition int_inv :: "config \<Rightarrow> nat \<Rightarrow> pager \<Rightarrow> bool" where
  "int_inv c n s \<longleftrightarrow>
     (int_slot c n (currentIndex s) \<or> infinite c \<and> n = 1 \<and> currentIndex s = js_int 1) \<and>
     (\<forall>r \<in> set (rafs s). raf_int c n r)"

text \<open>
  The visual index on which a transition to slot \<open>v\<close> comes to rest: the real panel behind
  a sentinel slot, or \<open>v\<close> itself.
\<close>

definition restingIndex :: "pager \<Rightarrow> jsnum \<Rightarrow> jsnum" where
  "restingIndex s v =
     (if infinite (cfg s) \<and> length (pages s) > 1
      then (if js_ge v (js_int (int (length (pages s)) - 1)) then js_int 1
            else if js_le v (js_int 0) then js_int (int (length (pages s)) - 2)
            else v)
      else v)"

text \<open>
  \<open>animating_to s v s'\<close>: started from the idle state \<open>s\<close>, a transition to slot \<open>v\<close> is
  being animated in \<open>s'\<close>. \<open>settled_at s v s'\<close>: that transition has completed in \<open>s'\<close>.
\<close>

definition animating_to :: "pager \<Rightarrow> jsnum \<Rightarrow> pager \<Rightarrow> bool" where
  "animating_to s v s' \<longleftrightarrow>
     cfg s' = cfg s \<and> pages s' = pages s \<and> originalPages s' = originalPages s \<and>
     currentIndex s' = v \<and> isAnimating s' \<and> hooks s' = [] \<and>
     (\<exists>i nr ri. rafs s' = [(i, nr, ri)] \<and> (if nr then ri else v) = restingIndex s v) \<and>
     afterLog s' = afterLog s"

definition settled_at :: "pager \<Rightarrow> jsnum \<Rightarrow> pager \<Rightarrow> bool" where
  "settled_at s v s' \<longleftrightarrow>
     cfg s' = cfg s \<and> pages s' = pages s \<and> originalPages s' = originalPages s \<and>
     currentIndex s' = restingIndex s v \<and> \<not> isAnimating s' \<and> hooks s' = [] \<and> rafs s' = [] \<and>
     afterLog s' =
       afterLog s @ (if hasAfterChange (cfg s) then [getOriginalIndex s (restingIndex s v)] else [])"

text \<open>
  A command followed by the fulfilment of its \<^verbatim>\<open>beforeChange\<close> promise and by animation
  frames at the given time stamps.
\<close>

definition await :: "event \<Rightarrow> rat list \<Rightarrow> pager \<Rightarrow> pager" where
  "await cmd ts s = run s (cmd # HookSettles 0 True # map AnimationFrame ts)"

text \<open>
  \<^verbatim>\<open>next()\<close> called once for every element of the list, each call awaited with the frames
  of that element; \<open>None\<close> when some transition has not settled after its frames.
\<close>

fun next_times :: "rat list list \<Rightarrow> pager \<Rightarrow> pager option" where
  "next_times [] s = Some s"
| "next_times (ts # tss) s =
     (let s' = await ApiNext ts s in if isAnimating s' then None else next_times tss s')"

text \<open>The time of a throttle event, and the arguments of the last call in a trace.\<close>

fun event_time :: "'a throttle_event \<Rightarrow> int" where
  "event_time (Call now args) = now"
| "event_time (Tick now) = now"

fun last_call :: "'a throttle_event list \<Rightarrow> 'a option" where
  "last_call [] = None"
| "last_call (Call now args # es) = (case last_call es of None \<Rightarrow> Some args | Some a \<Rightarrow> Some a)"
| "last_call (Tick now # es) = last_call es"

text \<open>The pending timeouts of a throttle, without their identifiers.\<close>

definition pending :: "'a throttle_state \<Rightarrow> (int \<times> 'a) list" where
  "pending st = map (\<lambda>(i, due, args). (due, args)) (timeouts st)"


text \<open>
  \<open>in_window delay t0 st\<close>: the throttle last fired at \<open>t0\<close> and holds at most one pending
  timeout, due at the end of the window that started at \<open>t0\<close>.
\<close>

definition in_window :: "int \<Rightarrow> int \<Rightarrow> 'a throttle_state \<Rightarrow> bool" where
  "in_window delay t0 st \<longleftrightarrow>
     lastTime st = t0 \<and>
     (timeouts st = [] \<or> (\<exists>i a. timeouts st = [(i, t0 + delay, a)] \<and> timer st = Some i))"

text \<open>Sample configurations and pagers for the concrete scenarios.\<close>

definition hooked_config :: config where
  "hooked_config = default_config\<lparr>hasBeforeChange := True, hasAfterChange := True\<rparr>"


definition bounded_config :: config where
  "bounded_config = hooked_config\<lparr>infinite := False\<rparr>"

definition wheel_down :: wheel_event where
  "wheel_down = \<lparr>deltaX = 0, deltaY = 100\<rparr>"

definition quick_config :: config where
  "quick_config = hooked_config\<lparr>duration := 500\<rparr>"

definition quick_pager :: pager where
  "quick_pager = the (scrollPager (Some 3) quick_config)"

definition looping_pager :: pager where
  "looping_pager = the (scrollPager (Some 3) hooked_config)"


definition bounded_pager :: pager where
  "bounded_pager = the (scrollPager (Some 3) bounded_config)"


section \<open>Integer indices\<close>

lemma is_integer_iff: "is_integer v \<longleftrightarrow> (\<exists>z. v = js_int z)"
proof (cases v)
  case (Fin q)
  show ?thesis
  proof
    assume "is_integer v"
    then have "of_int (floor q) = q" unfolding Fin is_integer.simps .
    then have "v = js_int (floor q)" unfolding Fin by (rule arg_cong[of _ _ Fin, symmetric])
    then show "\<exists>z. v = js_int z" ..
  next
    assume "\<exists>z. v = js_int z"
    then obtain z where "v = js_int z" ..
    then show "is_integer v" by simp
  qed
qed simp_all

lemma js_plus_int: "js_plus (js_int a) (js_int b) = js_int (a + b)"
  by simp

lemma js_minus_int: "js_minus (js_int a) (js_int b) = js_int (a - b)"
  by (simp add: js_minus_def)

lemma js_le_int: "js_le (js_int a) (js_int b) \<longleftrightarrow> a \<le> b"
  by simp

lemma js_ge_int: "js_ge (js_int a) (js_int b) \<longleftrightarrow> b \<le> a"
  by (simp add: js_ge_def)

lemma js_min_int: "js_min (js_int a) (js_int b) = js_int (min a b)"
  by (simp add: js_min_def min_def)

lemma js_max_int: "js_max (js_int a) (js_int b) = js_int (max a b)"
  by (simp add: js_max_def max_def)

lemmas js_int_simps = js_plus_int js_minus_int js_le_int js_ge_int js_min_int js_max_int

lemma clamped_int: "clamped len (js_int z) = js_int (max 0 (min z (int len - 1)))"
  unfolding clamped_def by (simp only: js_int_simps)

lemma interior_int: "interior n (js_int z) \<longleftrightarrow> 0 < z \<and> z \<le> int n"
  unfolding interior_def by (simp only: js_int_simps) auto

lemma getOriginalIndex_int:
  "getOriginalIndex s (js_int v) =
     js_int (if \<not> infinite (cfg s) then v
             else if v \<le> 0 then int (length (originalPages s)) - 1
             else if int (length (pages s)) - 1 \<le> v then 0
             else v - 1)"
  unfolding getOriginalIndex_def by (simp only: js_int_simps if_distrib[of js_int] cong: if_cong)



section \<open>The invariant holds in every reachable state\<close>

lemma inv_init: "scrollPager (Some n) c = Some s \<Longrightarrow> pager_inv c n s"
  by (auto simp: scrollPager_def pager_inv_def pages_length_def initPages_def cancelAnimationFrame_def
      interior_def js_ge_def add.commute Let_def split: if_splits)

lemma inv_scrollTo: "pager_inv c n s \<Longrightarrow> pager_inv c n (scrollTo i b s)"
  by (auto simp: scrollTo_def pager_inv_def pages_length_def Let_def split: if_splits)

lemma inv_triggerAfterChange: "pager_inv c n s \<Longrightarrow> pager_inv c n (triggerAfterChange s)"
  by (auto simp: triggerAfterChange_def pager_inv_def)

lemma inv_updatePagesPosition: "pager_inv c n s \<Longrightarrow> pager_inv c n (updatePagesPosition b p s)"
  by (auto simp: updatePagesPosition_def pager_inv_def)



lemma inv_hookSettles: "pager_inv c n s \<Longrightarrow> pager_inv c n (hookSettles k f s)"
proof -
  assume inv: "pager_inv c n s"
  show ?thesis
  proof (cases "k < length (hooks s)")
    case False
    then show ?thesis using inv by (simp add: hookSettles_def)
  next
    case True
    from inv have le: "length (hooks s) + length (rafs s) \<le> 1"
      and an: "hooks s \<noteq> [] \<or> rafs s \<noteq> [] \<longrightarrow> isAnimating s"
      by (simp_all add: pager_inv_def)
    from True le have h1: "length (hooks s) = 1" "length (rafs s) = 0" "k = 0" by arith+
    with an have h: "length (hooks s) = 1" "rafs s = []" "k = 0" "isAnimating s"
      by auto
    then obtain b u where hk: "hooks s = [(b, u)]"
      by (cases "hooks s") auto
    define s1 where "s1 = s\<lparr>hooks := []\<rparr>"
    have s1: "cfg s1 = c" "length (originalPages s1) = n" "length (pages s1) = pages_length c n"
      "hooks s1 = []" "rafs s1 = []" "0 < n" "isAnimating s1"
      using inv h by (auto simp: s1_def pager_inv_def)
    have a: "pager_inv c n (afterBeforeChange b s1)"
      using s1
      by (auto simp: afterBeforeChange_def animateScroll_def scrollDone_def requestAnimationFrame_def
          updatePagesPosition_def triggerAfterChange_def pager_inv_def pages_length_def raf_ok_def
          interior_def js_ge_def add.commute split: if_splits)
    have r: "pager_inv c n s1"
      using s1 by (auto simp: pager_inv_def)
    have "hookSettles k f s = (if f then afterBeforeChange b s1 else if u then s1 else s)"
      using h hk by (simp add: hookSettles_def s1_def)
    then show ?thesis using a r inv by simp
  qed
qed



lemma inv_animationFrame: "pager_inv c n s \<Longrightarrow> pager_inv c n (animationFrame t s)"
proof -
  assume inv: "pager_inv c n s"
  from inv have le: "length (hooks s) + length (rafs s) \<le> 1"
    by (simp add: pager_inv_def)
  show ?thesis
  proof (cases "rafs s")
    case Nil
    then have "animationFrame t s = s\<lparr>rafs := []\<rparr>" by (simp add: animationFrame_def)
    also have "\<dots> = s" using Nil by simp
    finally show ?thesis using inv by simp
  next
    case (Cons r rs)
    with le have rs: "rs = []" and hk: "hooks s = []" by auto
    obtain i nr ri where r: "r = (i, nr, ri)" by (cases r)
    define s0 where "s0 = s\<lparr>rafs := []\<rparr>"
    have fr: "animationFrame t s = animate t nr ri s0"
      using Cons rs r by (simp add: animationFrame_def s0_def)
    from inv Cons r have ri: "raf_ok c n (currentIndex s) (i, nr, ri)"
      by (simp add: pager_inv_def)
    have s0: "cfg s0 = c" "length (originalPages s0) = n" "length (pages s0) = pages_length c n"
      "hooks s0 = []" "rafs s0 = []" "0 < n" "isAnimating s0"
      "raf_ok c n (currentIndex s0) (i, nr, ri)"
      using inv hk ri Cons by (auto simp: s0_def pager_inv_def)
    have "pager_inv c n (animate t nr ri s0)"
      using s0
      by (auto simp: animate_def scrollDone_def requestAnimationFrame_def Let_def
          updatePagesPosition_def triggerAfterChange_def pager_inv_def raf_ok_def split: if_splits)
    with fr show ?thesis by simp
  qed
qed

lemma inv_cancelAnimationFrame: "pager_inv c n s \<Longrightarrow> pager_inv c n (cancelAnimationFrame h s)"
proof -
  assume inv: "pager_inv c n s"
  have len: "length (filter P (rafs s)) \<le> length (rafs s)" for P by simp
  show ?thesis
  proof (cases h)
    case None
    then show ?thesis using inv by (simp add: cancelAnimationFrame_def)
  next
    case (Some i)
    let ?P = "\<lambda>(j, nr, ri). j \<noteq> i"
    from inv have le: "length (hooks s) + length (rafs s) \<le> 1"
      by (simp add: pager_inv_def)
    with len[of ?P] have le': "length (hooks s) + length (filter ?P (rafs s)) \<le> 1" by arith
    have ne: "filter ?P (rafs s) \<noteq> [] \<Longrightarrow> rafs s \<noteq> []" by auto
    show ?thesis using inv le' ne Some
      by (auto simp: cancelAnimationFrame_def pager_inv_def)
  qed
qed

lemma inv_destroy: "pager_inv c n s \<Longrightarrow> pager_inv c n (fst (destroy s))"
proof -
  assume inv: "pager_inv c n s"
  define s1 where "s1 = cancelAnimationFrame (animationFrameId s) s"
  have i1: "pager_inv c n s1" using inv by (simp add: s1_def inv_cancelAnimationFrame)
  have upd: "pager_inv c n (s1\<lparr>listeners := ls\<rparr>)" for ls using i1 by (simp add: pager_inv_def)
  have upd2: "pager_inv c n (s1\<lparr>listeners := ls, children := cs\<rparr>)" for ls cs using i1 by (simp add: pager_inv_def)
  show ?thesis
    using upd upd2 unfolding destroy_def s1_def[symmetric] Let_def
    by (auto split: sum.splits)
qed

lemma inv_handleWheel: "pager_inv c n s \<Longrightarrow> pager_inv c n (handleWheel e s)"
  by (simp add: handleWheel_def Let_def inv_scrollTo)

lemma inv_throttle_update: "pager_inv c n s \<Longrightarrow> pager_inv c n (s\<lparr>throttle := t\<rparr>)"
  by (simp add: pager_inv_def)

lemma inv_throttledWheel: "pager_inv c n s \<Longrightarrow> pager_inv c n (throttledWheel now e s)"
  by (auto simp: throttledWheel_def inv_handleWheel inv_throttle_update split: prod.splits option.splits)

lemma inv_wheelTimeout: "pager_inv c n s \<Longrightarrow> pager_inv c n (wheelTimeout now s)"
  by (auto simp: wheelTimeout_def inv_handleWheel inv_throttle_update split: prod.splits option.splits)

lemma inv_wheelListener: "pager_inv c n s \<Longrightarrow> pager_inv c n (wheelListener now e s)"
  by (simp add: wheelListener_def Let_def inv_throttledWheel)

lemma inv_startTouch_update: "pager_inv c n s \<Longrightarrow> pager_inv c n (s\<lparr>startTouch := t\<rparr>)"
  by (simp add: pager_inv_def)

lemma inv_handleTouchStart: "pager_inv c n s \<Longrightarrow> pager_inv c n (handleTouchStart now t s)"
  by (simp add: handleTouchStart_def inv_startTouch_update)

lemma inv_handleTouchEnd: "pager_inv c n s \<Longrightarrow> pager_inv c n (handleTouchEnd now t w h s)"
  by (auto simp: handleTouchEnd_def Let_def inv_startTouch_update inv_scrollTo split: option.splits)

lemma inv_runHandler: "pager_inv c n s \<Longrightarrow> pager_inv c n (runHandler h ev s)"
  by (cases "(h, ev, s)" rule: runHandler.cases)
     (simp_all add: inv_wheelListener inv_throttledWheel inv_handleTouchStart inv_handleTouchEnd handleTouchMove_def)

lemma inv_dispatch_fold:
  "pager_inv c n s \<Longrightarrow>
   pager_inv c n (foldl (\<lambda>st (ty, h). if ty = k then runHandler h ev st else st) s ls)"
  by (induction ls arbitrary: s) (auto simp: inv_runHandler)

lemma inv_dispatch: "pager_inv c n s \<Longrightarrow> pager_inv c n (dispatch ev s)"
  by (simp add: dispatch_def inv_dispatch_fold)

lemma inv_step: "pager_inv c n s \<Longrightarrow> pager_inv c n (step s e)"
  by (cases e)
     (simp_all add: next_def prev_def api_scrollTo_def Let_def inv_scrollTo inv_destroy
        inv_dispatch inv_wheelTimeout inv_hookSettles inv_animationFrame)

lemma reachable_inv: "reachable c n s \<Longrightarrow> pager_inv c n s"
  by (induction rule: reachable.induct) (simp_all add: inv_init inv_step)


section \<open>Integer arguments keep the visual index an integer slot\<close>

lemma int_slot_int: "int_slot c n (js_int z) \<longleftrightarrow> 0 \<le> z \<and> z < int (pages_length c n)"
  by (auto simp: int_slot_def)

lemma int_slot_clamped:
  assumes "0 < pages_length c n" "is_integer i"
  shows "int_slot c n (clamped (pages_length c n) i)"
proof -
  from assms(2) obtain z where "i = js_int z" unfolding is_integer_iff ..
  then show ?thesis using assms(1) by (simp only: clamped_int int_slot_int) auto
qed

lemma int_inv_current: "int_inv c n s \<Longrightarrow> \<exists>z. currentIndex s = js_int z"
  by (auto simp: int_inv_def int_slot_def)

lemma is_integer_step:
  assumes "int_inv c n s"
  shows "is_integer (js_plus (currentIndex s) (js_int d))"
    and "is_integer (nextIndex s)"
    and "is_integer (prevIndex s)"
    and "is_integer k \<Longrightarrow> is_integer (toVisualSeed s k)"
proof -
  from int_inv_current[OF assms] obtain z where z: "currentIndex s = js_int z" ..
  show "is_integer (js_plus (currentIndex s) (js_int d))"
    unfolding z by (simp only: js_int_simps is_integer_iff) blast
  show "is_integer (nextIndex s)"
    unfolding nextIndex_def z by (simp only: js_int_simps is_integer_iff if_split) blast
  show "is_integer (prevIndex s)"
    unfolding prevIndex_def z by (simp only: js_int_simps is_integer_iff if_split) blast
  show "is_integer (toVisualSeed s k)" if "is_integer k"
  proof -
    from that obtain j where "k = js_int j" unfolding is_integer_iff ..
    then show ?thesis
      unfolding toVisualSeed_def by (simp only: js_int_simps is_integer_iff if_split) blast
  qed
qed

lemma scrollTo_clamped:
  "\<not> isAnimating s \<Longrightarrow> currentIndex (scrollTo i b s) = clamped (length (pages s)) i"
  by (simp add: scrollTo_def clamped_def Let_def)

lemma scrollTo_rafs: "rafs (scrollTo i b s) = rafs s"
  by (simp add: scrollTo_def Let_def)

lemma int_scrollTo:
  assumes "pager_inv c n s" "int_inv c n s" "is_integer i"
  shows "int_inv c n (scrollTo i b s)"
proof (cases "isAnimating s")
  case True
  then show ?thesis using assms(2) by (simp add: scrollTo_def)
next
  case False
  from assms(1) have len: "length (pages s) = pages_length c n" "0 < pages_length c n"
    by (auto simp: pager_inv_def pages_length_def)
  have "int_slot c n (currentIndex (scrollTo i b s))"
    unfolding scrollTo_clamped[OF False] len(1) by (rule int_slot_clamped[OF len(2) assms(3)])
  then show ?thesis using assms(2) by (simp add: int_inv_def scrollTo_rafs)
qed

lemma int_field_updates:
  assumes "int_inv c n s"
  shows "int_inv c n (s\<lparr>throttle := t\<rparr>)"
    and "int_inv c n (s\<lparr>startTouch := u\<rparr>)"
    and "int_inv c n (s\<lparr>listeners := ls\<rparr>)"
    and "int_inv c n (s\<lparr>listeners := ls, children := cs\<rparr>)"
    and "int_inv c n (s\<lparr>hooks := hs\<rparr>)"
  using assms by (simp_all add: int_inv_def)

lemma int_hookSettles:
  assumes "pager_inv c n s" "int_inv c n s"
  shows "int_inv c n (hookSettles k f s)"
proof (cases "k < length (hooks s)")
  case False
  then show ?thesis using assms(2) by (simp add: hookSettles_def)
next
  case True
  from assms(1) have le: "length (hooks s) + length (rafs s) \<le> 1"
    by (simp add: pager_inv_def)
  from True le have h1: "length (hooks s) = 1" "length (rafs s) = 0" "k = 0" by arith+
  then obtain b u where hk: "hooks s = [(b, u)]"
    by (cases "hooks s") auto
  define s1 where "s1 = s\<lparr>hooks := []\<rparr>"
  have s1: "cfg s1 = c" "length (pages s1) = pages_length c n" "rafs s1 = []"
    "int_slot c n (currentIndex s1) \<or> infinite c \<and> n = 1 \<and> currentIndex s1 = js_int 1"
    using assms h1 by (auto simp: s1_def pager_inv_def int_inv_def)
  have slots: "int_slot c n (js_int 1)" "int_slot c n (js_int (int (length (pages s1)) - 2))"
    if "infinite c" "1 < length (pages s1)"
    using that s1(2) by (simp_all only: int_slot_int) auto
  have a: "int_inv c n (afterBeforeChange b s1)"
    using s1 slots
    by (auto simp: afterBeforeChange_def animateScroll_def scrollDone_def requestAnimationFrame_def
        updatePagesPosition_def triggerAfterChange_def int_inv_def raf_int_def)
  have r: "int_inv c n s1"
    using assms(2) unfolding s1_def by (rule int_field_updates)
  have "hookSettles k f s = (if f then afterBeforeChange b s1 else if u then s1 else s)"
    using h1 hk by (simp add: hookSettles_def s1_def)
  then show ?thesis using a r assms(2) by simp
qed

lemma int_animationFrame:
  assumes "pager_inv c n s" "int_inv c n s"
  shows "int_inv c n (animationFrame t s)"
proof -
  from assms(1) have le: "length (hooks s) + length (rafs s) \<le> 1"
    by (simp add: pager_inv_def)
  show ?thesis
  proof (cases "rafs s")
    case Nil
    then have "animationFrame t s = s\<lparr>rafs := []\<rparr>" by (simp add: animationFrame_def)
    also have "\<dots> = s" using Nil by simp
    finally show ?thesis using assms(2) by simp
  next
    case (Cons r rs)
    with le have rs: "rs = []" by auto
    obtain i nr ri where r: "r = (i, nr, ri)" by (cases r)
    define s0 where "s0 = s\<lparr>rafs := []\<rparr>"
    have fr: "animationFrame t s = animate t nr ri s0"
      using Cons rs r by (simp add: animationFrame_def s0_def)
    have s0: "rafs s0 = []" "nr \<longrightarrow> int_slot c n ri"
      "int_slot c n (currentIndex s0) \<or> infinite c \<and> n = 1 \<and> currentIndex s0 = js_int 1"
      using assms(2) Cons r by (auto simp: s0_def int_inv_def raf_int_def)
    have "int_inv c n (animate t nr ri s0)"
      using s0
      by (auto simp: animate_def scrollDone_def requestAnimationFrame_def Let_def
          updatePagesPosition_def triggerAfterChange_def int_inv_def raf_int_def)
    with fr show ?thesis by simp
  qed
qed

lemma int_cancelAnimationFrame: "int_inv c n s \<Longrightarrow> int_inv c n (cancelAnimationFrame h s)"
  by (cases h) (auto simp: cancelAnimationFrame_def int_inv_def)

lemma int_destroy: "int_inv c n s \<Longrightarrow> int_inv c n (fst (destroy s))"
proof -
  assume inv: "int_inv c n s"
  define s1 where "s1 = cancelAnimationFrame (animationFrameId s) s"
  have i1: "int_inv c n s1" using inv by (simp add: s1_def int_cancelAnimationFrame)
  show ?thesis
    using int_field_updates(3,4)[OF i1] unfolding destroy_def s1_def[symmetric] Let_def
    by (auto split: sum.splits)
qed

lemma int_handleWheel:
  assumes "pager_inv c n s" "int_inv c n s"
  shows "int_inv c n (handleWheel e s)"
  using assms int_scrollTo[OF assms is_integer_step(1)[OF assms(2)]]
  by (simp add: handleWheel_def Let_def)

lemma both_throttle:
  assumes "pager_inv c n s" "int_inv c n s"
  shows "pager_inv c n (s\<lparr>throttle := t\<rparr>)" "int_inv c n (s\<lparr>throttle := t\<rparr>)"
  using assms by (simp_all add: inv_throttle_update int_field_updates)

lemma int_throttledWheel:
  assumes "pager_inv c n s" "int_inv c n s"
  shows "int_inv c n (throttledWheel now e s)"
  using both_throttle[OF assms] int_handleWheel
  by (auto simp: throttledWheel_def split: prod.splits option.splits)

lemma int_wheelTimeout:
  assumes "pager_inv c n s" "int_inv c n s"
  shows "int_inv c n (wheelTimeout now s)"
  using both_throttle[OF assms] int_handleWheel
  by (auto simp: wheelTimeout_def split: prod.splits option.splits)

lemma int_wheelListener:
  assumes "pager_inv c n s" "int_inv c n s"
  shows "int_inv c n (wheelListener now e s)"
  using assms int_throttledWheel[OF assms] by (simp add: wheelListener_def Let_def)

lemma int_handleTouchStart: "int_inv c n s \<Longrightarrow> int_inv c n (handleTouchStart now t s)"
  by (simp add: handleTouchStart_def int_field_updates)

lemma int_handleTouchEnd:
  assumes "pager_inv c n s" "int_inv c n s"
  shows "int_inv c n (handleTouchEnd now t w h s)"
  using assms int_scrollTo[OF assms is_integer_step(1)[OF assms(2)]]
  by (auto simp: handleTouchEnd_def Let_def int_field_updates split: option.splits)

lemma int_runHandler:
  assumes "pager_inv c n s" "int_inv c n s"
  shows "int_inv c n (runHandler h ev s)"
  using assms
  by (cases "(h, ev, s)" rule: runHandler.cases)
     (simp_all add: int_wheelListener int_throttledWheel int_handleTouchStart int_handleTouchEnd
        handleTouchMove_def)

lemma both_dispatch_fold:
  "pager_inv c n s \<and> int_inv c n s \<Longrightarrow>
   pager_inv c n (foldl (\<lambda>st (ty, h). if ty = k then runHandler h ev st else st) s ls) \<and>
   int_inv c n (foldl (\<lambda>st (ty, h). if ty = k then runHandler h ev st else st) s ls)"
  by (induction ls arbitrary: s) (auto simp: inv_runHandler int_runHandler)

lemma int_dispatch:
  assumes "pager_inv c n s" "int_inv c n s"
  shows "int_inv c n (dispatch ev s)"
  using both_dispatch_fold[of c n s "event_type_of ev" ev "listeners s"] assms
  by (simp add: dispatch_def)

lemma int_step:
  assumes "pager_inv c n s" "int_inv c n s" "integral_event e"
  shows "int_inv c n (step s e)"
proof (cases e)
  case ApiNext
  then show ?thesis using int_scrollTo[OF assms(1,2) is_integer_step(2)[OF assms(2)]] by (simp add: next_def)
next
  case ApiPrev
  then show ?thesis using int_scrollTo[OF assms(1,2) is_integer_step(3)[OF assms(2)]] by (simp add: prev_def)
next
  case (ApiScrollTo k)
  with assms(3) have "is_integer k" by simp
  from int_scrollTo[OF assms(1,2) is_integer_step(4)[OF assms(2) this]] ApiScrollTo
  show ?thesis by (simp add: api_scrollTo_def)
next
  case ApiDestroy
  then show ?thesis using int_destroy[OF assms(2)] by simp
next
  case (Dom ev)
  then show ?thesis using int_dispatch[OF assms(1,2)] by simp
next
  case (Timeout now)
  then show ?thesis using int_wheelTimeout[OF assms(1,2)] by simp
next
  case (HookSettles k f)
  then show ?thesis using int_hookSettles[OF assms(1,2)] by simp
next
  case (AnimationFrame t)
  then show ?thesis using int_animationFrame[OF assms(1,2)] by simp
qed

lemma int_init: "scrollPager (Some n) c = Some s \<Longrightarrow> int_inv c n s"
  by (auto simp: scrollPager_def int_inv_def int_slot_def pages_length_def initPages_def
      cancelAnimationFrame_def Let_def split: if_splits)

lemma integral_reachable: "reachable_integral c n s \<Longrightarrow> reachable c n s"
  by (induction rule: reachable_integral.induct) (simp_all add: reachable_init reachable_step)

lemma reachable_integral_inv: "reachable_integral c n s \<Longrightarrow> int_inv c n s"
proof (induction rule: reachable_integral.induct)
  case (integral_init s)
  then show ?case by (rule int_init)
next
  case (integral_step s e)
  from reachable_inv[OF integral_reachable[OF integral_step.hyps(1)]] integral_step.IH integral_step.hyps(2)
  show ?case by (rule int_step)
qed


section \<open>The course of one transition\<close>

lemma reachable_run: "reachable c n s \<Longrightarrow> reachable c n (run s evs)"
  unfolding run_def
  by (induction evs arbitrary: s) (simp_all add: reachable_step)

lemma run_Cons: "run s (e # evs) = run (step s e) evs"
  by (simp add: run_def)

lemma run_Nil: "run s [] = s"
  by (simp add: run_def)

lemma idle_no_pending:
  assumes "pager_inv c n s" "\<not> isAnimating s"
  shows "hooks s = []" "rafs s = []"
  using assms by (auto simp: pager_inv_def)

lemma scrollTo_busy: "isAnimating s \<Longrightarrow> scrollTo i b s = s"
  by (simp add: scrollTo_def)


lemma scrollTo_idle:
  assumes "\<not> isAnimating s"
  shows "cfg (scrollTo i b s) = cfg s"
    and "pages (scrollTo i b s) = pages s"
    and "originalPages (scrollTo i b s) = originalPages s"
    and "currentIndex (scrollTo i b s) = clamped (length (pages s)) i"
    and "isAnimating (scrollTo i b s)"
    and "hooks (scrollTo i b s) = hooks s @ [(b, hasBeforeChange (cfg s))]"
    and "rafs (scrollTo i b s) = rafs s"
    and "afterLog (scrollTo i b s) = afterLog s"
    and "styles (scrollTo i b s) = styles s"
    and "beforeLog (scrollTo i b s) =
           beforeLog s @ (if hasBeforeChange (cfg s)
                          then [(getOriginalIndex s (currentIndex s),
                                 getOriginalIndex s (clamped (length (pages s)) i))]
                          else [])"
  using assms by (simp_all add: scrollTo_def Let_def getOriginalIndex_def clamped_def)

lemma hookSettles_single:
  "hooks s = [(b, u)] \<Longrightarrow> hookSettles 0 True s = afterBeforeChange b (s\<lparr>hooks := []\<rparr>)"
  by (simp add: hookSettles_def)

lemma afterBeforeChange_animated:
  shows "cfg (afterBeforeChange False s) = cfg s"
    and "pages (afterBeforeChange False s) = pages s"
    and "originalPages (afterBeforeChange False s) = originalPages s"
    and "currentIndex (afterBeforeChange False s) = currentIndex s"
    and "isAnimating (afterBeforeChange False s) = isAnimating s"
    and "hooks (afterBeforeChange False s) = hooks s"
    and "afterLog (afterBeforeChange False s) = afterLog s"
    and "beforeLog (afterBeforeChange False s) = beforeLog s"
    and "styles (afterBeforeChange False s) = styles s"
    and "startTimestamp (afterBeforeChange False s) = None"
    and "rafs (afterBeforeChange False s) =
           rafs s @ [(nextRafId s,
                      infinite (cfg s) \<and> length (pages s) > 1 \<and>
                        (js_ge (currentIndex s) (js_int (int (length (pages s)) - 1)) \<or>
                         js_le (currentIndex s) (js_int 0)),
                      restingIndex s (currentIndex s))]"
  by (auto simp: afterBeforeChange_def animateScroll_def requestAnimationFrame_def restingIndex_def)

lemma restingIndex_interior:
  "\<not> (infinite (cfg s) \<and> length (pages s) > 1 \<and>
      (js_ge v (js_int (int (length (pages s)) - 1)) \<or> js_le v (js_int 0))) \<Longrightarrow>
   restingIndex s v = v"
  by (auto simp: restingIndex_def)

lemma start_transition:
  assumes "\<not> isAnimating s" "hooks s = []" "rafs s = []"
  shows "animating_to s (clamped (length (pages s)) i)
           (hookSettles 0 True (scrollTo i False s))"
proof -
  let ?s1 = "scrollTo i False s"
  let ?s2 = "?s1\<lparr>hooks := []\<rparr>"
  let ?v = "clamped (length (pages s)) i"
  let ?nr = "infinite (cfg s) \<and> length (pages s) > 1 \<and>
             (js_ge ?v (js_int (int (length (pages s)) - 1)) \<or> js_le ?v (js_int 0))"
  have h: "hooks ?s1 = [(False, hasBeforeChange (cfg s))]"
    using assms by (simp add: scrollTo_idle)
  have eq: "hookSettles 0 True ?s1 = afterBeforeChange False ?s2"
    by (rule hookSettles_single[OF h])
  have rest: "restingIndex ?s2 v = restingIndex s v" for v
    using assms by (simp add: restingIndex_def scrollTo_idle)
  have f: "cfg ?s2 = cfg s" "pages ?s2 = pages s" "originalPages ?s2 = originalPages s"
    "currentIndex ?s2 = ?v" "isAnimating ?s2" "hooks ?s2 = []" "rafs ?s2 = []" "afterLog ?s2 = afterLog s"
    using assms by (simp_all add: scrollTo_idle)
  have r: "rafs (afterBeforeChange False ?s2) = [(nextRafId ?s2, ?nr, restingIndex s ?v)]"
    unfolding afterBeforeChange_animated f rest by simp
  have "(if ?nr then restingIndex s ?v else ?v) = restingIndex s ?v"
    using restingIndex_interior[of s ?v] by (cases ?nr) simp_all
  with r have ex: "\<exists>i nr ri. rafs (afterBeforeChange False ?s2) = [(i, nr, ri)] \<and>
      (if nr then ri else ?v) = restingIndex s ?v"
    by blast
  show ?thesis
    unfolding eq animating_to_def afterBeforeChange_animated(1-7) f
    using ex f(5) by simp
qed

lemma animationFrame_idle: "rafs s = [] \<Longrightarrow> animationFrame t s = s"
  by (simp add: animationFrame_def)

lemma frame_progress:
  assumes "animating_to s v s'"
  shows "animating_to s v (animationFrame t s') \<or> settled_at s v (animationFrame t s')"
proof -
  from assms obtain i nr ri where r: "rafs s' = [(i, nr, ri)]"
    and rest: "(if nr then ri else v) = restingIndex s v"
    by (auto simp: animating_to_def)
  define s0 where "s0 = s'\<lparr>rafs := []\<rparr>"
  have fr: "animationFrame t s' = animate t nr ri s0"
    using r by (simp add: animationFrame_def s0_def)
  have s0: "cfg s0 = cfg s" "pages s0 = pages s" "originalPages s0 = originalPages s"
    "currentIndex s0 = v" "isAnimating s0" "hooks s0 = []" "rafs s0 = []" "afterLog s0 = afterLog s"
    using assms by (auto simp: s0_def animating_to_def)
  have "animating_to s v (animate t nr ri s0) \<or> settled_at s v (animate t nr ri s0)"
    using s0 rest
    by (auto simp: animate_def scrollDone_def requestAnimationFrame_def Let_def
        updatePagesPosition_def triggerAfterChange_def animating_to_def settled_at_def
        getOriginalIndex_def split: if_splits)
  with fr show ?thesis by simp
qed

lemma settled_frame: "settled_at s v s' \<Longrightarrow> animationFrame t s' = s'"
  by (simp add: settled_at_def animationFrame_idle)

lemma frames_progress:
  assumes "animating_to s v s' \<or> settled_at s v s'"
  shows "animating_to s v (run s' (map AnimationFrame ts)) \<or> settled_at s v (run s' (map AnimationFrame ts))"
  using assms
proof (induction ts arbitrary: s')
  case Nil
  then show ?case by (simp add: run_Nil)
next
  case (Cons t ts)
  have "animating_to s v (animationFrame t s') \<or> settled_at s v (animationFrame t s')"
    using Cons.prems frame_progress[of s v s' t] settled_frame[of s v s' t] by auto
  from Cons.IH[OF this] show ?case by (simp add: run_Cons)
qed


lemma transition_outcome:
  assumes "pager_inv c n s" "\<not> isAnimating s"
  shows "animating_to s (clamped (length (pages s)) i)
           (run (scrollTo i False s) (HookSettles 0 True # map AnimationFrame ts)) \<or>
         settled_at s (clamped (length (pages s)) i)
           (run (scrollTo i False s) (HookSettles 0 True # map AnimationFrame ts))"
proof -
  have "animating_to s (clamped (length (pages s)) i) (hookSettles 0 True (scrollTo i False s))"
    using assms by (intro start_transition idle_no_pending[of c n s])
  then show ?thesis
    unfolding run_Cons step.simps by (intro frames_progress) simp
qed


lemma scrollPager_Some: "0 < n \<Longrightarrow> \<exists>s. scrollPager (Some n) c = Some s"
  by (simp add: scrollPager_def Let_def)

lemma reachable_constructed: "0 < n \<Longrightarrow> reachable c n (the (scrollPager (Some n) c))"
proof -
  assume "0 < n"
  then obtain s where "scrollPager (Some n) c = Some s" using scrollPager_Some by blast
  then show ?thesis by (simp add: reachable_init)
qed


section \<open>Index mappings and the range of the page number\<close>

lemma toVisualSeed_int:
  "toVisualSeed s (js_int k) = js_int (if infinite (cfg s) then k + 1 else k)"
  unfolding toVisualSeed_def by (simp only: js_int_simps if_distrib[of js_int] cong: if_cong)

text \<open>
  Claim C7. For a pager built from \<open>n\<close> panels and every logical index \<open>k\<close> with
  \<open>0 \<le> k < n\<close>, mapping the seed that the public \<^verbatim>\<open>scrollTo\<close> computes for \<open>k\<close> back
  with \<^verbatim>\<open>getOriginalIndex\<close> gives \<open>k\<close> again, with wraparound enabled or disabled. The two
  functions of the source are the mappings that the claim describes: the seeds are equal,
  and \<^verbatim>\<open>getOriginalIndex\<close> agrees with the described mapping on every slot from \<open>0\<close> to
  \<open>n + 1\<close>.
\<close>

theorem index_roundtrip:
  assumes "reachable c n s" "0 \<le> k" "k < int n"
  shows "getOriginalIndex s (toVisualSeed s (js_int k)) = js_int k \<and>
         toVisualSeed s (js_int k) = js_int (toVisualSeed_spec (infinite c) k) \<and>
         toLogical_spec (infinite c) n (toVisualSeed_spec (infinite c) k) = k \<and>
         (\<forall>v. 0 \<le> v \<and> v \<le> int n + 1 \<longrightarrow>
              getOriginalIndex s (js_int v) = js_int (toLogical_spec (infinite c) n v))"
proof -
  from reachable_inv[OF assms(1)]
  have f: "cfg s = c" "length (originalPages s) = n" "length (pages s) = pages_length c n"
    by (simp_all add: pager_inv_def)
  have "(if \<not> infinite c then (if infinite c then k + 1 else k)
         else if (if infinite c then k + 1 else k) \<le> 0 then int n - 1
         else if int (pages_length c n) - 1 \<le> (if infinite c then k + 1 else k) then 0
         else (if infinite c then k + 1 else k) - 1) = k"
    using assms(2,3) by (auto simp: pages_length_def)
  then have a: "getOriginalIndex s (toVisualSeed s (js_int k)) = js_int k"
    unfolding toVisualSeed_int getOriginalIndex_int f by (rule arg_cong)
  have b: "toVisualSeed s (js_int k) = js_int (toVisualSeed_spec (infinite c) k)"
    unfolding toVisualSeed_int f toVisualSeed_spec_def ..
  have d: "toLogical_spec (infinite c) n (toVisualSeed_spec (infinite c) k) = k"
    using assms(2,3) by (simp add: toLogical_spec_def toVisualSeed_spec_def)
  have e: "getOriginalIndex s (js_int v) = js_int (toLogical_spec (infinite c) n v)"
    if "0 \<le> v \<and> v \<le> int n + 1" for v
  proof -
    have "(if \<not> infinite c then v
           else if v \<le> 0 then int n - 1
           else if int (pages_length c n) - 1 \<le> v then 0
           else v - 1) = toLogical_spec (infinite c) n v"
      using that by (auto simp: toLogical_spec_def pages_length_def)
    then show ?thesis unfolding getOriginalIndex_int f by (rule arg_cong)
  qed
  show ?thesis using a b d e by simp
qed

theorem index_roundtrip_witness:
  "reachable default_config 3 (the (scrollPager (Some 3) default_config)) \<and>
   (0::int) \<le> 2 \<and> (2::int) < int 3 \<and>
   getOriginalIndex (the (scrollPager (Some 3) default_config))
     (toVisualSeed (the (scrollPager (Some 3) default_config)) (js_int 2)) = js_int 2 \<and>
   getOriginalIndex (the (scrollPager (Some 3) default_config)) (js_int 4) =
     js_int (toLogical_spec (infinite default_config) 3 4)"
proof -
  have r: "reachable default_config 3 (the (scrollPager (Some 3) default_config))"
    by (rule reachable_constructed) simp
  have h: "(0::int) \<le> 2" "(2::int) < int 3" by simp_all
  note t = index_roundtrip[OF r h]
  from t have a: "getOriginalIndex (the (scrollPager (Some 3) default_config))
     (toVisualSeed (the (scrollPager (Some 3) default_config)) (js_int 2)) = js_int 2"
    by (rule conjunct1)
  from t have "\<forall>v. 0 \<le> v \<and> v \<le> int 3 + 1 \<longrightarrow>
      getOriginalIndex (the (scrollPager (Some 3) default_config)) (js_int v) =
        js_int (toLogical_spec (infinite default_config) 3 v)"
    by blast
  then have "0 \<le> (4::int) \<and> 4 \<le> int 3 + 1 \<longrightarrow>
      getOriginalIndex (the (scrollPager (Some 3) default_config)) (js_int 4) =
        js_int (toLogical_spec (infinite default_config) 3 4)"
    by (rule spec)
  moreover have "0 \<le> (4::int) \<and> 4 \<le> int 3 + 1" by simp
  ultimately have e: "getOriginalIndex (the (scrollPager (Some 3) default_config)) (js_int 4) =
        js_int (toLogical_spec (infinite default_config) 3 4)"
    by (rule mp)
  show ?thesis using r h a e by blast
qed

lemma reachable_looping: "reachable hooked_config 3 looping_pager"
  unfolding looping_pager_def by (rule reachable_constructed) simp


lemma reachable_bounded: "reachable bounded_config 3 bounded_pager"
  unfolding bounded_pager_def by (rule reachable_constructed) simp

lemma reachable_integral_constructed:
  "0 < n \<Longrightarrow> reachable_integral c n (the (scrollPager (Some n) c))"
proof -
  assume "0 < n"
  then obtain s where "scrollPager (Some n) c = Some s" using scrollPager_Some by blast
  then show ?thesis by (simp add: integral_init)
qed

lemma reachable_integral_run:
  "reachable_integral c n s \<Longrightarrow> list_all integral_event evs \<Longrightarrow> reachable_integral c n (run s evs)"
  unfolding run_def
  by (induction evs arbitrary: s) (simp_all add: integral_step)

text \<open>
  Claim C10 says that \<^verbatim>\<open>getCurrentIndex()\<close> always returns a logical index between \<open>0\<close> and
  \<open>n - 1\<close>. The public \<^verbatim>\<open>scrollTo\<close> neither validates nor rounds its argument. For three
  panels with wraparound, \<^verbatim>\<open>scrollTo(2.5)\<close> makes \<^verbatim>\<open>getCurrentIndex()\<close> return 2.5, at once
  and after the transition has settled with the visual index at 3.5; \<^verbatim>\<open>scrollTo(-0.5)\<close>
  gives -0.5, and \<^verbatim>\<open>scrollTo()\<close> without an argument gives NaN.
\<close>

theorem getCurrentIndex_counterexample:
  "getCurrentIndex looping_pager = js_int 0 \<and>
   getCurrentIndex (step looping_pager (ApiScrollTo (Fin (5 / 2)))) = Fin (5 / 2) \<and>
   getCurrentIndex (step looping_pager (ApiScrollTo (Fin (- 1 / 2)))) = Fin (- 1 / 2) \<and>
   getCurrentIndex (step looping_pager (ApiScrollTo NaN)) = NaN \<and>
   \<not> isAnimating (await (ApiScrollTo (Fin (5 / 2))) [16, 816] looping_pager) \<and>
   currentIndex (await (ApiScrollTo (Fin (5 / 2))) [16, 816] looping_pager) = Fin (7 / 2) \<and>
   getCurrentIndex (await (ApiScrollTo (Fin (5 / 2))) [16, 816] looping_pager) = Fin (5 / 2)"
  by code_simp

lemma getOriginalIndex_clamps:
  assumes "pager_inv c n s" "infinite c"
  shows "js_le x (js_int 0) \<Longrightarrow> getOriginalIndex s x = js_int (int n - 1)"
    and "js_ge x (js_int (int n + 1)) \<Longrightarrow> getOriginalIndex s x = js_int 0"
proof -
  from assms have f: "cfg s = c" "0 < n" "length (originalPages s) = n" "length (pages s) = pages_length c n"
    by (simp_all add: pager_inv_def)
  show "getOriginalIndex s x = js_int (int n - 1)" if "js_le x (js_int 0)"
    using that f assms(2) by (simp add: getOriginalIndex_def)
  show "getOriginalIndex s x = js_int 0" if "js_ge x (js_int (int n + 1))"
    using that f assms(2)
    by (cases x) (auto simp: getOriginalIndex_def js_ge_def pages_length_def)
qed

text \<open>
  Claim C10, amended. In every state that a pager built from \<open>n\<close> panels reaches by its
  construction, by \<^verbatim>\<open>next()\<close>, \<^verbatim>\<open>prev()\<close>, \<^verbatim>\<open>destroy()\<close>, wheel and touch input, timers,
  settling hooks, animation frames, and by calls of \<^verbatim>\<open>scrollTo\<close> whose argument is an integer,
  \<open>n \<ge> 1\<close> and \<^verbatim>\<open>getCurrentIndex()\<close> returns an integer between \<open>0\<close> and \<open>n - 1\<close>. With
  wraparound enabled the mapping from visual to logical indices sends every integer into that
  range, and it clamps: every number at or below \<open>0\<close> is mapped to \<open>n - 1\<close> and every number
  at or above \<open>n + 1\<close> to \<open>0\<close>; so the page number is valid also while the visual index
  rests on a sentinel slot.
\<close>

theorem getCurrentIndex_range:
  assumes "reachable_integral c n s"
  shows "1 \<le> n \<and> (\<exists>z. getCurrentIndex s = js_int z \<and> 0 \<le> z \<and> z < int n) \<and>
         (infinite c \<longrightarrow>
            (\<forall>v. \<exists>z. getOriginalIndex s (js_int v) = js_int z \<and> 0 \<le> z \<and> z < int n) \<and>
            (\<forall>x. (js_le x (js_int 0) \<longrightarrow> getOriginalIndex s x = js_int (int n - 1)) \<and>
                 (js_ge x (js_int (int n + 1)) \<longrightarrow> getOriginalIndex s x = js_int 0)))"
proof -
  have inv: "pager_inv c n s"
    by (rule reachable_inv[OF integral_reachable[OF assms]])
  then have f: "cfg s = c" "0 < n" "length (originalPages s) = n" "length (pages s) = pages_length c n"
    by (simp_all add: pager_inv_def)
  have tot: "\<exists>z. getOriginalIndex s (js_int v) = js_int z \<and> 0 \<le> z \<and> z < int n" if "infinite c" for v
  proof -
    let ?z = "if v \<le> 0 then int n - 1 else if int (pages_length c n) - 1 \<le> v then 0 else v - 1"
    have "getOriginalIndex s (js_int v) = js_int ?z"
      unfolding getOriginalIndex_int f using that by simp
    moreover have "0 \<le> ?z \<and> ?z < int n"
      using f(2) that by (auto simp: pages_length_def)
    ultimately show ?thesis by blast
  qed
  from reachable_integral_inv[OF assms]
  have "int_slot c n (currentIndex s) \<or> infinite c \<and> n = 1 \<and> currentIndex s = js_int 1"
    by (simp add: int_inv_def)
  then obtain z where z: "currentIndex s = js_int z"
    and zr: "0 \<le> z \<and> z < int (pages_length c n) \<or> infinite c \<and> n = 1 \<and> z = 1"
    by (auto simp: int_slot_def)
  have cur: "\<exists>z. getCurrentIndex s = js_int z \<and> 0 \<le> z \<and> z < int n"
  proof (cases "infinite c")
    case True
    then show ?thesis using tot[of z] by (simp add: getCurrentIndex_def z)
  next
    case False
    have "getOriginalIndex s (js_int z) = js_int z"
      unfolding getOriginalIndex_int f using False by simp
    then show ?thesis
      using zr False by (auto simp: getCurrentIndex_def z pages_length_def)
  qed
  show ?thesis
    using f(2) cur tot getOriginalIndex_clamps[OF inv] by auto
qed

theorem getCurrentIndex_range_witness:
  "reachable_integral hooked_config 3 (run looping_pager [ApiPrev]) \<and>
   currentIndex (run looping_pager [ApiPrev]) = js_int 0 \<and>
   getCurrentIndex (run looping_pager [ApiPrev]) = js_int 2 \<and>
   (1::nat) \<le> 3 \<and>
   getOriginalIndex (run looping_pager [ApiPrev]) PosInf = js_int 0"
proof -
  have "reachable_integral hooked_config 3 looping_pager"
    unfolding looping_pager_def by (rule reachable_integral_constructed) simp
  then have r: "reachable_integral hooked_config 3 (run looping_pager [ApiPrev])"
    by (rule reachable_integral_run) simp
  have i: "infinite hooked_config" by (simp add: hooked_config_def default_config_def)
  have e: "currentIndex (run looping_pager [ApiPrev]) = js_int 0"
    "getCurrentIndex (run looping_pager [ApiPrev]) = js_int 2"
    by code_simp+
  have g: "js_ge PosInf (js_int (int 3 + 1))" by (simp add: js_ge_def)
  from getCurrentIndex_range[OF r] i g
  have "getOriginalIndex (run looping_pager [ApiPrev]) PosInf = js_int 0" by blast
  with r e show ?thesis by simp
qed


section \<open>Single flight\<close>

lemma busy_handleWheel: "isAnimating s \<Longrightarrow> handleWheel e s = s"
  by (simp add: handleWheel_def)

lemma busy_handleTouchStart: "isAnimating s \<Longrightarrow> handleTouchStart now t s = s"
  by (simp add: handleTouchStart_def)

lemma busy_handleTouchEnd: "isAnimating s \<Longrightarrow> handleTouchEnd now t w h s = s"
  by (simp add: handleTouchEnd_def split: option.splits)

lemma busy_throttledWheel: "isAnimating s \<Longrightarrow> \<exists>th. throttledWheel now e s = s\<lparr>throttle := th\<rparr>"
  by (auto simp: throttledWheel_def busy_handleWheel split: prod.splits option.splits)

lemma busy_wheelTimeout: "isAnimating s \<Longrightarrow> \<exists>th. wheelTimeout now s = s\<lparr>throttle := th\<rparr>"
  by (auto simp: wheelTimeout_def busy_handleWheel split: prod.splits option.splits)

lemma throttle_same: "\<exists>th. s = s\<lparr>throttle := th\<rparr>"
  by (rule exI[of _ "throttle s"]) simp

lemma busy_wheelListener: "isAnimating s \<Longrightarrow> \<exists>th. wheelListener now e s = s\<lparr>throttle := th\<rparr>"
  using busy_throttledWheel[of s now e] throttle_same[of s]
  by (simp add: wheelListener_def Let_def)

lemma busy_runHandler:
  assumes "isAnimating s"
  shows "\<exists>th. runHandler h ev s = s\<lparr>throttle := th\<rparr>"
proof (cases ev)
  case (WheelEv now e)
  show ?thesis
  proof (cases h)
    case WheelArrow
    then show ?thesis using WheelEv busy_wheelListener[OF assms, of now e] by simp
  next
    case ThrottledWheel
    then show ?thesis using WheelEv busy_throttledWheel[OF assms, of now e] by simp
  qed (simp_all add: WheelEv throttle_same)
next
  case (TouchStartEv now t)
  then show ?thesis
    by (cases h) (simp_all add: busy_handleTouchStart[OF assms] throttle_same)
next
  case (TouchMoveEv t)
  then show ?thesis
    by (cases h) (simp_all add: handleTouchMove_def throttle_same)
next
  case (TouchEndEv now t w hh)
  then show ?thesis
    by (cases h) (simp_all add: busy_handleTouchEnd[OF assms] throttle_same)
qed

lemma busy_dispatch_fold:
  "isAnimating s \<Longrightarrow>
   \<exists>th. foldl (\<lambda>st (ty, h). if ty = k then runHandler h ev st else st) s ls = s\<lparr>throttle := th\<rparr>"
proof (induction ls arbitrary: s)
  case Nil
  then show ?case using throttle_same[of s] by simp
next
  case (Cons l ls)
  obtain ty h where l: "l = (ty, h)" by (cases l)
  show ?case
  proof (cases "ty = k")
    case True
    from busy_runHandler[OF Cons.prems, of h ev] obtain th where
      th: "runHandler h ev s = s\<lparr>throttle := th\<rparr>" by blast
    have "isAnimating (s\<lparr>throttle := th\<rparr>)" using Cons.prems by simp
    from Cons.IH[OF this] obtain th' where
      "foldl (\<lambda>st (ty, h). if ty = k then runHandler h ev st else st) (s\<lparr>throttle := th\<rparr>) ls =
       s\<lparr>throttle := th, throttle := th'\<rparr>" by blast
    then show ?thesis using l True th by auto
  next
    case False
    then show ?thesis using Cons.IH[OF Cons.prems] l by simp
  qed
qed

lemma busy_dispatch: "isAnimating s \<Longrightarrow> \<exists>th. dispatch ev s = s\<lparr>throttle := th\<rparr>"
  unfolding dispatch_def by (rule busy_dispatch_fold)

text \<open>
  Claim C1. In every reachable state at most one transition is in flight. While one is in
  flight, whether its \<^verbatim>\<open>beforeChange\<close> promise is still pending or its animation is running,
  the guard \<^verbatim>\<open>isAnimating\<close> is held; \<^verbatim>\<open>next()\<close>, \<^verbatim>\<open>prev()\<close> and \<^verbatim>\<open>scrollTo()\<close> leave the
  whole state as it is, and so do the commands that \<^verbatim>\<open>handleWheel\<close> and \<^verbatim>\<open>handleTouchEnd\<close>
  derive from input. An input event dispatched to the container, or a due timeout of the
  wheel throttle, changes nothing but the throttle's own variables: the visual index, the
  pending work of the transition and its target stay the same, and nothing is queued in the
  engine.
\<close>

theorem single_flight:
  assumes "reachable c n s" "inFlight s"
  shows "length (hooks s) + length (rafs s) = 1 \<and> isAnimating s \<and>
         step s ApiNext = s \<and> step s ApiPrev = s \<and> step s (ApiScrollTo k) = s \<and>
         handleWheel e s = s \<and> handleTouchEnd now t w h s = s \<and>
         (\<exists>th. step s (Dom ev) = s\<lparr>throttle := th\<rparr>) \<and>
         (\<exists>th. step s (Timeout now) = s\<lparr>throttle := th\<rparr>)"
proof -
  from reachable_inv[OF assms(1)]
  have le: "length (hooks s) + length (rafs s) \<le> 1"
    and an: "hooks s \<noteq> [] \<or> rafs s \<noteq> [] \<longrightarrow> isAnimating s"
    by (simp_all add: pager_inv_def)
  from assms(2) have "0 < length (hooks s) + length (rafs s)"
    by (auto simp: inFlight_def)
  with le have one: "length (hooks s) + length (rafs s) = 1" by arith
  from an assms(2) have busy: "isAnimating s" by (simp add: inFlight_def)
  have api: "step s ApiNext = s" "step s ApiPrev = s" "step s (ApiScrollTo k) = s"
    using busy by (simp_all add: next_def prev_def api_scrollTo_def scrollTo_busy)
  show ?thesis
    using one busy api busy_handleWheel[OF busy] busy_handleTouchEnd[OF busy]
      busy_dispatch[OF busy] busy_wheelTimeout[OF busy]
    by simp
qed

theorem single_flight_witness:
  "reachable hooked_config 3 (run looping_pager [ApiNext]) \<and> inFlight (run looping_pager [ApiNext]) \<and>
   step (run looping_pager [ApiNext]) ApiNext = run looping_pager [ApiNext] \<and>
   step (run looping_pager [ApiNext]) (ApiScrollTo (js_int 0)) = run looping_pager [ApiNext] \<and>
   handleWheel wheel_down (run looping_pager [ApiNext]) = run looping_pager [ApiNext] \<and>
   currentIndex (step (run looping_pager [ApiNext]) (Dom (WheelEv 1000 wheel_down))) = js_int 2"
proof -
  have r: "reachable hooked_config 3 (run looping_pager [ApiNext])"
    by (rule reachable_run[OF reachable_looping])
  have f: "inFlight (run looping_pager [ApiNext])" by code_simp
  have c: "currentIndex (step (run looping_pager [ApiNext]) (Dom (WheelEv 1000 wheel_down))) = js_int 2"
    by code_simp
  from single_flight[OF r f, of "js_int 0" wheel_down] r f c show ?thesis by simp
qed


section \<open>Construction, teardown and rejected hooks\<close>

lemma visual_index_valid:
  assumes "reachable_integral c n s" "\<not> (infinite c \<and> n = 1)"
  shows "\<exists>z. currentIndex s = js_int z \<and> 0 \<le> z \<and> z < int (length (pages s)) \<and>
             length (pages s) = (if infinite c \<and> 1 < n then n + 2 else n)"
proof -
  from reachable_inv[OF integral_reachable[OF assms(1)]]
  have "length (pages s) = pages_length c n"
    by (simp add: pager_inv_def)
  moreover from reachable_integral_inv[OF assms(1)] assms(2)
  have "int_slot c n (currentIndex s)"
    by (auto simp: int_inv_def)
  ultimately show ?thesis by (auto simp: int_slot_def pages_length_def)
qed

text \<open>
  Claim C8 says that the visual index is a valid offset into the visual sequence in every
  reachable state, the initial one included, for every \<open>n \<ge> 1\<close> and both wraparound
  settings. Lemma \<open>visual_index_valid\<close> shows this, as long as \<^verbatim>\<open>scrollTo\<close> is called with
  integers, for every pager except the one built from a single panel with wraparound
  enabled. There the constructor inserts no clones, since it asks for more than one panel,
  but still starts at \<^verbatim>\<open>currentIndex = 1\<close>: the visual sequence has length 1, the index 1 is
  outside it, and the only panel is placed at \<open>-100%\<close>, outside the viewport.
\<close>

theorem single_panel_initial_index:
  "map_option (\<lambda>s. (currentIndex s, length (pages s), map transform (styles s)))
     (scrollPager (Some 1) default_config) = Some (js_int 1, 1, [js_int (- 100)])"
  by code_simp

text \<open>
  Claim C9 says that \<^verbatim>\<open>destroy()\<close> detaches all input listeners and is idempotent. For
  three panels with wraparound, the first call raises nothing, removes both clones and the
  three touch listeners, but the wheel listener stays registered:
  \<^verbatim>\<open>removeEventListener('wheel', throttledWheel)\<close> names a function that was never
  registered, the listener being an anonymous arrow function. A wheel event after
  \<^verbatim>\<open>destroy()\<close> therefore still starts a transition. A second call of \<^verbatim>\<open>destroy()\<close>
  finds \<^verbatim>\<open>pages\<close> unchanged, asks the container to remove the clone again and fails with
  \<^verbatim>\<open>NotFoundError\<close>.
\<close>

theorem destroy_keeps_wheel_listener:
  "snd (destroy looping_pager) = None \<and>
   children (fst (destroy looping_pager)) = originalPages looping_pager \<and>
   listeners (fst (destroy looping_pager)) = [(EvWheel, WheelArrow)] \<and>
   currentIndex (fst (destroy looping_pager)) = js_int 1 \<and>
   currentIndex (step (fst (destroy looping_pager)) (Dom (WheelEv 1000 wheel_down))) = js_int 2 \<and>
   isAnimating (step (fst (destroy looping_pager)) (Dom (WheelEv 1000 wheel_down))) \<and>
   snd (destroy (fst (destroy looping_pager))) = Some NotFoundError"
  by code_simp

text \<open>
  Claim C2 says that a rejected \<^verbatim>\<open>beforeChange\<close> promise leaves the visual index as it was
  before the command and that the pager accepts commands again. For three panels with
  wraparound, \<^verbatim>\<open>next()\<close> followed by the rejection leaves the visual index at 2 instead of 1
  (\<^verbatim>\<open>getCurrentIndex()\<close> at 1 instead of 0), and a further \<^verbatim>\<open>next()\<close> is ignored.
\<close>

theorem rejected_hook_counterexample:
  "currentIndex looping_pager = js_int 1 \<and>
   currentIndex (run looping_pager [ApiNext, HookSettles 0 False]) = js_int 2 \<and>
   getCurrentIndex looping_pager = js_int 0 \<and>
   getCurrentIndex (run looping_pager [ApiNext, HookSettles 0 False]) = js_int 1 \<and>
   isAnimating (run looping_pager [ApiNext, HookSettles 0 False]) \<and>
   step (run looping_pager [ApiNext, HookSettles 0 False]) ApiNext =
     run looping_pager [ApiNext, HookSettles 0 False]"
  by code_simp

lemma hookSettles_rejected:
  "hooks s = [(b, True)] \<Longrightarrow> hookSettles 0 False s = s\<lparr>hooks := []\<rparr>"
  by (simp add: hookSettles_def)

text \<open>
  Claim C2, amended. \<^verbatim>\<open>scrollTo\<close> assigns the clamped target to the visual index before it
  calls \<^verbatim>\<open>beforeChange\<close>. If the promise of an accepted command is then rejected, the
  transition does not run: the panel styles are those before the command, \<^verbatim>\<open>afterChange\<close>
  is not called, no continuation or frame callback remains, and the visual index is the
  clamped target of the command. Every command reaches \<^verbatim>\<open>scrollTo\<close> with some index \<open>i\<close>.
\<close>

theorem rejected_hook:
  assumes "reachable c n s" "\<not> isAnimating s" "hasBeforeChange c"
  shows "styles (hookSettles 0 False (scrollTo i b s)) = styles s \<and>
         afterLog (hookSettles 0 False (scrollTo i b s)) = afterLog s \<and>
         \<not> inFlight (hookSettles 0 False (scrollTo i b s)) \<and>
         currentIndex (hookSettles 0 False (scrollTo i b s)) = clamped (pages_length c n) i"
proof -
  from reachable_inv[OF assms(1)]
  have inv: "pager_inv c n s" .
  then have f: "cfg s = c" "length (pages s) = pages_length c n"
    by (simp_all add: pager_inv_def)
  have idle: "hooks s = []" "rafs s = []"
    using idle_no_pending[OF inv assms(2)] by simp_all
  have h: "hooks (scrollTo i b s) = [(b, True)]"
    using assms(2,3) f idle by (simp add: scrollTo_idle)
  show ?thesis
    unfolding hookSettles_rejected[OF h]
    using assms(2) f idle by (simp add: scrollTo_idle inFlight_def)
qed

theorem rejected_hook_witness:
  "reachable hooked_config 3 looping_pager \<and> \<not> isAnimating looping_pager \<and>
   hasBeforeChange hooked_config \<and>
   styles (hookSettles 0 False (scrollTo (js_int 9) False looping_pager)) = styles looping_pager \<and>
   afterLog (hookSettles 0 False (scrollTo (js_int 9) False looping_pager)) = [] \<and>
   currentIndex (hookSettles 0 False (scrollTo (js_int 9) False looping_pager)) = js_int 4"
proof -
  have i: "\<not> isAnimating looping_pager" by code_simp
  have h: "hasBeforeChange hooked_config" by code_simp
  have a: "afterLog looping_pager = []" by code_simp
  have p: "clamped (pages_length hooked_config 3) (js_int 9) = js_int 4" by code_simp
  from rejected_hook[OF reachable_looping i h, of "js_int 9" False] reachable_looping i h a
  show ?thesis unfolding p by simp
qed

lemma rejected_hook_keeps_guard:
  assumes "reachable c n s" "\<not> isAnimating s" "hasBeforeChange c"
  shows "isAnimating (hookSettles 0 False (scrollTo i b s))"
proof -
  from reachable_inv[OF assms(1)]
  have inv: "pager_inv c n s" .
  then have f: "cfg s = c"
    by (simp_all add: pager_inv_def)
  have idle: "hooks s = []" "rafs s = []"
    using idle_no_pending[OF inv assms(2)] by simp_all
  have h: "hooks (scrollTo i b s) = [(b, True)]"
    using assms(2,3) f idle by (simp add: scrollTo_idle)
  show ?thesis
    unfolding hookSettles_rejected[OF h]
    using assms(2) by (simp add: scrollTo_idle)
qed


section \<open>Completion of an animation\<close>

lemma await_unfold: "await cmd ts s = run (step s cmd) (HookSettles 0 True # map AnimationFrame ts)"
  by (simp add: await_def run_Cons)

lemma await_outcome:
  assumes "pager_inv c n s" "\<not> isAnimating s" "step s cmd = scrollTo i False s"
  shows "animating_to s (clamped (length (pages s)) i) (await cmd ts s) \<or>
         settled_at s (clamped (length (pages s)) i) (await cmd ts s)"
  unfolding await_unfold assms(3) by (rule transition_outcome[OF assms(1,2)])

lemma frame_first:
  assumes "animating_to s v s'" "startTimestamp s' = None" "0 < duration (cfg s)" "t \<noteq> 0"
  shows "animating_to s v (animationFrame t s') \<and> startTimestamp (animationFrame t s') = Some t"
proof -
  from assms(1) obtain i nr ri where r: "rafs s' = [(i, nr, ri)]"
    and rest: "(if nr then ri else v) = restingIndex s v"
    by (auto simp: animating_to_def)
  define s0 where "s0 = s'\<lparr>rafs := []\<rparr>"
  have fr: "animationFrame t s' = animate t nr ri s0"
    using r by (simp add: animationFrame_def s0_def)
  have s0: "cfg s0 = cfg s" "pages s0 = pages s" "originalPages s0 = originalPages s"
    "currentIndex s0 = v" "isAnimating s0" "hooks s0 = []" "rafs s0 = []" "afterLog s0 = afterLog s"
    "startTimestamp s0 = None"
    using assms(1,2) by (auto simp: s0_def animating_to_def)
  have p: "js_lt1 (js_min1 (js_div (t - t) (duration (cfg s))))"
    using assms(3) by (simp add: js_div_def js_min1_def js_lt1_def)
  have "animate t nr ri s0 =
          requestAnimationFrame nr ri
            (updatePagesPosition False (js_min1 (js_div (t - t) (duration (cfg s))))
               (s0\<lparr>startTimestamp := Some t\<rparr>))"
    using p s0 by (simp add: animate_def Let_def)
  then show ?thesis
    unfolding fr using s0 rest
    by (simp add: requestAnimationFrame_def updatePagesPosition_def animating_to_def)
qed

lemma frame_instant:
  assumes "animating_to s v s'" "startTimestamp s' = None" "duration (cfg s) = 0"
  shows "settled_at s v (animationFrame t s')"
proof -
  from assms(1) obtain i nr ri where r: "rafs s' = [(i, nr, ri)]"
    and rest: "(if nr then ri else v) = restingIndex s v"
    by (auto simp: animating_to_def)
  define s0 where "s0 = s'\<lparr>rafs := []\<rparr>"
  have fr: "animationFrame t s' = animate t nr ri s0"
    using r by (simp add: animationFrame_def s0_def)
  have s0: "cfg s0 = cfg s" "pages s0 = pages s" "originalPages s0 = originalPages s"
    "currentIndex s0 = v" "isAnimating s0" "hooks s0 = []" "rafs s0 = []" "afterLog s0 = afterLog s"
    "startTimestamp s0 = None"
    using assms(1,2) by (auto simp: s0_def animating_to_def)
  have p: "\<not> js_lt1 (js_min1 (js_div (t - t) (duration (cfg s))))"
    using assms(3) by (simp add: js_div_def js_min1_def js_lt1_def)
  have "animate t nr ri s0 =
          scrollDone nr ri
            (updatePagesPosition False (js_min1 (js_div (t - t) (duration (cfg s))))
               (s0\<lparr>startTimestamp := Some t\<rparr>))"
    using p s0 by (simp add: animate_def Let_def)
  then show ?thesis
    unfolding fr using s0 rest
    by (cases nr)
       (simp_all add: scrollDone_def triggerAfterChange_def updatePagesPosition_def settled_at_def
          getOriginalIndex_def)
qed

lemma frame_last:
  assumes "animating_to s v s'" "startTimestamp s' = Some t0" "t0 \<noteq> 0"
    "0 < duration (cfg s)" "t0 + duration (cfg s) \<le> t"
  shows "settled_at s v (animationFrame t s')"
proof -
  from assms(1) obtain i nr ri where r: "rafs s' = [(i, nr, ri)]"
    and rest: "(if nr then ri else v) = restingIndex s v"
    by (auto simp: animating_to_def)
  define s0 where "s0 = s'\<lparr>rafs := []\<rparr>"
  have fr: "animationFrame t s' = animate t nr ri s0"
    using r by (simp add: animationFrame_def s0_def)
  have s0: "cfg s0 = cfg s" "pages s0 = pages s" "originalPages s0 = originalPages s"
    "currentIndex s0 = v" "isAnimating s0" "hooks s0 = []" "rafs s0 = []" "afterLog s0 = afterLog s"
    "startTimestamp s0 = Some t0"
    using assms(1,2) by (auto simp: s0_def animating_to_def)
  have "1 \<le> (t - t0) / duration (cfg s)"
    using assms(4,5) by (simp add: le_divide_eq)
  then have p: "\<not> js_lt1 (js_min1 (js_div (t - t0) (duration (cfg s))))"
    using assms(4) by (simp add: js_div_def js_min1_def js_lt1_def)
  have "animate t nr ri s0 =
          scrollDone nr ri
            (updatePagesPosition False (js_min1 (js_div (t - t0) (duration (cfg s))))
               (s0\<lparr>startTimestamp := Some t0\<rparr>))"
    using p s0 assms(3) by (simp add: animate_def Let_def)
  then show ?thesis
    unfolding fr using s0 rest
    by (cases nr)
       (simp_all add: scrollDone_def triggerAfterChange_def updatePagesPosition_def settled_at_def
          getOriginalIndex_def)
qed

lemma two_frames_settle:
  assumes "animating_to s v s'" "startTimestamp s' = None" "0 \<le> duration (cfg s)"
  shows "settled_at s v (run s' (map AnimationFrame [1, 1 + duration (cfg s)]))"
proof (cases "duration (cfg s) = 0")
  case True
  have "settled_at s v (animationFrame 1 s')"
    by (rule frame_instant[OF assms(1,2) True])
  then show ?thesis by (simp add: run_Cons run_Nil settled_frame)
next
  case False
  with assms(3) have d: "0 < duration (cfg s)" by simp
  have a: "animating_to s v (animationFrame 1 s')" "startTimestamp (animationFrame 1 s') = Some 1"
    using frame_first[OF assms(1,2) d, of 1] by simp_all
  have "settled_at s v (animationFrame (1 + duration (cfg s)) (animationFrame 1 s'))"
    by (rule frame_last[OF a(1) a(2) _ d]) simp_all
  then show ?thesis by (simp add: run_Cons run_Nil)
qed

lemma await_settles:
  assumes "pager_inv c n s" "\<not> isAnimating s" "step s cmd = scrollTo i False s" "0 \<le> duration c"
  shows "settled_at s (clamped (length (pages s)) i) (await cmd [1, 1 + duration c] s)"
proof -
  have idle: "hooks s = []" "rafs s = []"
    using idle_no_pending[OF assms(1,2)] by simp_all
  have c: "cfg s = c" using assms(1) by (simp add: pager_inv_def)
  let ?s2 = "hookSettles 0 True (scrollTo i False s)"
  have a: "animating_to s (clamped (length (pages s)) i) ?s2"
    by (rule start_transition[OF assms(2) idle])
  have h: "hooks (scrollTo i False s) = [(False, hasBeforeChange (cfg s))]"
    using assms(2) idle by (simp add: scrollTo_idle)
  have st: "startTimestamp ?s2 = None"
    unfolding hookSettles_single[OF h] by (rule afterBeforeChange_animated)
  have "settled_at s (clamped (length (pages s)) i)
          (run ?s2 (map AnimationFrame [1, 1 + duration (cfg s)]))"
    using a st assms(4) c by (intro two_frames_settle) simp_all
  then show ?thesis
    unfolding await_unfold assms(3) c by (simp add: run_Cons)
qed

lemma settled_idle: "settled_at s v s' \<Longrightarrow> \<not> isAnimating s'"
  by (simp add: settled_at_def)


section \<open>The public scrollTo\<close>

lemma step_commands:
  "step s ApiNext = scrollTo (nextIndex s) False s"
  "step s ApiPrev = scrollTo (prevIndex s) False s"
  "step s (ApiScrollTo k) = scrollTo (toVisualSeed s k) False s"
  by (simp_all add: next_def prev_def api_scrollTo_def)






section \<open>Boundary commands\<close>

text \<open>
  Claim C4 says that with wraparound disabled a boundary command fires no \<^verbatim>\<open>afterChange\<close>.
  For three panels, \<^verbatim>\<open>prev()\<close> at logical index 0 calls \<^verbatim>\<open>beforeChange(0, 0)\<close> and, after the
  animation, \<^verbatim>\<open>afterChange(0)\<close>; \<^verbatim>\<open>next()\<close> at logical index 2 ends with a second
  \<^verbatim>\<open>afterChange(2)\<close>.
\<close>

theorem boundary_command_counterexample:
  "\<not> infinite bounded_config \<and> getCurrentIndex bounded_pager = js_int 0 \<and>
   \<not> isAnimating bounded_pager \<and> afterLog bounded_pager = [] \<and>
   beforeLog (await ApiPrev [16, 816] bounded_pager) = [(js_int 0, js_int 0)] \<and>
   afterLog (await ApiPrev [16, 816] bounded_pager) = [js_int 0] \<and>
   getCurrentIndex (await (ApiScrollTo (js_int 2)) [16, 816] bounded_pager) = js_int 2 \<and>
   \<not> isAnimating (await (ApiScrollTo (js_int 2)) [16, 816] bounded_pager) \<and>
   afterLog (await (ApiScrollTo (js_int 2)) [16, 816] bounded_pager) = [js_int 2] \<and>
   afterLog (await ApiNext [1000, 1800] (await (ApiScrollTo (js_int 2)) [16, 816] bounded_pager)) =
     [js_int 2, js_int 2]"
  by code_simp

text \<open>
  Claim C4, amended. With wraparound disabled, \<^verbatim>\<open>prev()\<close> at logical index 0 and \<^verbatim>\<open>next()\<close>
  at logical index \<open>n - 1\<close> leave \<^verbatim>\<open>getCurrentIndex()\<close> unchanged, at once and throughout what
  follows. The command is nevertheless accepted as a transition onto the same page: the guard
  is held, \<^verbatim>\<open>beforeChange\<close> is called with the unchanged index twice, and when the animation
  has completed \<^verbatim>\<open>afterChange\<close> has been called once with that index. For a duration that is
  not negative, two frames one duration apart complete it.
\<close>

theorem boundary_command:
  assumes "reachable c n s" "\<not> infinite c" "\<not> isAnimating s"
    and "cmd = ApiPrev \<and> getCurrentIndex s = js_int 0 \<or>
         cmd = ApiNext \<and> getCurrentIndex s = js_int (int n - 1)"
  shows "getCurrentIndex (step s cmd) = getCurrentIndex s \<and> isAnimating (step s cmd) \<and>
         beforeLog (step s cmd) =
           beforeLog s @ (if hasBeforeChange c then [(getCurrentIndex s, getCurrentIndex s)] else []) \<and>
         (\<forall>ts. getCurrentIndex (await cmd ts s) = getCurrentIndex s \<and>
               afterLog (await cmd ts s) =
                 afterLog s @ (if hasAfterChange c \<and> \<not> isAnimating (await cmd ts s)
                               then [getCurrentIndex s] else [])) \<and>
         (0 \<le> duration c \<longrightarrow> \<not> isAnimating (await cmd [1, 1 + duration c] s))"
proof -
  from reachable_inv[OF assms(1)]
  have inv: "pager_inv c n s" .
  then have f: "cfg s = c" "length (pages s) = n" "length (originalPages s) = n" "0 < n"
    using assms(2) by (simp_all add: pager_inv_def pages_length_def)
  have id: "getOriginalIndex s x = x" for x
    using f assms(2) by (simp add: getOriginalIndex_def)
  define i where "i = (if cmd = ApiPrev then prevIndex s else nextIndex s)"
  have st: "step s cmd = scrollTo i False s"
    using assms(4) by (auto simp: i_def next_def prev_def)
  have cl: "clamped (length (pages s)) i = currentIndex s"
  proof -
    from assms(4) show ?thesis
    proof
      assume a: "cmd = ApiPrev \<and> getCurrentIndex s = js_int 0"
      then have c0: "currentIndex s = js_int 0" by (simp add: getCurrentIndex_def id)
      have "clamped (length (pages s)) (js_max (js_minus (js_int 0) (js_int 1)) (js_int 0)) = js_int 0"
        using f(2,4) by (simp only: js_int_simps clamped_int) simp
      then show ?thesis using a assms(2) f(1) by (simp add: i_def prevIndex_def c0)
    next
      assume a: "cmd = ApiNext \<and> getCurrentIndex s = js_int (int n - 1)"
      then have c0: "currentIndex s = js_int (int n - 1)" by (simp add: getCurrentIndex_def id)
      have "clamped (length (pages s))
              (js_min (js_plus (js_int (int n - 1)) (js_int 1)) (js_int (int (length (originalPages s)) - 1))) =
            js_int (int n - 1)"
        using f(2,3,4) by (simp only: js_int_simps clamped_int) simp
      then show ?thesis using a assms(2) f(1) by (simp add: i_def nextIndex_def c0)
    qed
  qed
  have rest: "restingIndex s x = x" for x
    using f assms(2) by (simp add: restingIndex_def)
  have g1: "getCurrentIndex (step s cmd) = getCurrentIndex s"
    unfolding st getCurrentIndex_def using assms(3) cl
    by (simp add: getOriginalIndex_def scrollTo_idle)
  have g2: "isAnimating (step s cmd)"
    unfolding st using assms(3) by (simp add: scrollTo_idle)
  have g3: "beforeLog (step s cmd) =
           beforeLog s @ (if hasBeforeChange c then [(getCurrentIndex s, getCurrentIndex s)] else [])"
    unfolding st using assms(3) cl f(1) by (simp add: scrollTo_idle getCurrentIndex_def)
  have g4: "getCurrentIndex (await cmd ts s) = getCurrentIndex s \<and>
               afterLog (await cmd ts s) =
                 afterLog s @ (if hasAfterChange c \<and> \<not> isAnimating (await cmd ts s)
                               then [getCurrentIndex s] else [])" for ts
  proof -
    from await_outcome[OF inv assms(3) st, of ts]
    have "animating_to s (currentIndex s) (await cmd ts s) \<or>
          settled_at s (currentIndex s) (await cmd ts s)"
      unfolding cl .
    then show ?thesis
    proof
      assume "animating_to s (currentIndex s) (await cmd ts s)"
      then show ?thesis
        by (simp add: animating_to_def getCurrentIndex_def getOriginalIndex_def)
    next
      assume "settled_at s (currentIndex s) (await cmd ts s)"
      then show ?thesis
        using f(1) by (simp add: settled_at_def rest getCurrentIndex_def getOriginalIndex_def)
    qed
  qed
  have g5: "\<not> isAnimating (await cmd [1, 1 + duration c] s)" if "0 \<le> duration c"
    using await_settles[OF inv assms(3) st that] by (rule settled_idle)
  show ?thesis using g1 g2 g3 g4 g5 by blast
qed

theorem boundary_command_witness:
  "reachable bounded_config 3 bounded_pager \<and> \<not> infinite bounded_config \<and>
   \<not> isAnimating bounded_pager \<and> getCurrentIndex bounded_pager = js_int 0 \<and>
   getCurrentIndex (step bounded_pager ApiPrev) = js_int 0 \<and> isAnimating (step bounded_pager ApiPrev) \<and>
   \<not> isAnimating (await ApiPrev [1, 801] bounded_pager) \<and>
   afterLog (await ApiPrev [1, 801] bounded_pager) = [js_int 0]"
proof -
  have e: "\<not> infinite bounded_config" "\<not> isAnimating bounded_pager"
    "getCurrentIndex bounded_pager = js_int 0" "afterLog bounded_pager = []"
    "hasAfterChange bounded_config" "duration bounded_config = 800"
    by code_simp+
  have h: "ApiPrev = ApiPrev \<and> getCurrentIndex bounded_pager = js_int 0 \<or>
           ApiPrev = ApiNext \<and> getCurrentIndex bounded_pager = js_int (int 3 - 1)"
    using e(3) by simp
  from boundary_command[OF reachable_bounded e(1,2) h]
  have b: "getCurrentIndex (step bounded_pager ApiPrev) = js_int 0" "isAnimating (step bounded_pager ApiPrev)"
    "\<not> isAnimating (await ApiPrev [1, 801] bounded_pager)"
    "afterLog (await ApiPrev [1, 801] bounded_pager) =
       (if \<not> isAnimating (await ApiPrev [1, 801] bounded_pager) then [js_int 0] else [])"
    using e by simp_all
  with reachable_bounded e show ?thesis by simp
qed


section \<open>A full cycle of next()\<close>

lemma reachable_await: "reachable c n s \<Longrightarrow> reachable c n (await cmd ts s)"
  unfolding await_def by (rule reachable_run)




lemma next_times_total:
  assumes "0 \<le> duration c"
  shows "reachable c n s \<Longrightarrow> \<not> isAnimating s \<Longrightarrow> next_times (replicate m [1, 1 + duration c]) s \<noteq> None"
proof (induction m arbitrary: s)
  case 0
  then show ?case by simp
next
  case (Suc m)
  let ?s1 = "await ApiNext [1, 1 + duration c] s"
  from reachable_inv[OF Suc.prems(1)]
  have inv: "pager_inv c n s" .
  have idle1: "\<not> isAnimating ?s1"
    using await_settles[OF inv Suc.prems(2) step_commands(1) assms] by (rule settled_idle)
  have r1: "reachable c n ?s1" by (rule reachable_await[OF Suc.prems(1)])
  from Suc.IH[OF r1 idle1] idle1 show ?case by (simp add: Let_def)
qed






section \<open>Bursts through the throttle\<close>

lemma throttle_run_append:
  "throttle_run delay imm (xs @ ys) st =
     (case throttle_run delay imm xs st of
        (st1, out1) \<Rightarrow> (case throttle_run delay imm ys st1 of (st2, out2) \<Rightarrow> (st2, out1 @ out2)))"
  by (induction xs arbitrary: st) (auto split: prod.splits)

lemma window_call:
  assumes "in_window delay t0 st" "t0 \<noteq> 0" "now < t0 + delay"
  shows "snd (throttled delay True now a st) = None \<and>
         in_window delay t0 (fst (throttled delay True now a st)) \<and>
         pending (fst (throttled delay True now a st)) = [(t0 + delay, a)]"
proof -
  from assms(1) have lt: "lastTime st = t0" by (simp add: in_window_def)
  from assms(1) consider "timeouts st = []" | i b where "timeouts st = [(i, t0 + delay, b)]" "timer st = Some i"
    by (auto simp: in_window_def)
  then show ?thesis
  proof cases
    case 1
    then show ?thesis using lt assms(2,3)
      by (cases "timer st")
         (simp_all add: throttled_def clearTimeout_def setTimeout_def in_window_def pending_def Let_def)
  next
    case 2
    then show ?thesis using lt assms(2,3)
      by (simp add: throttled_def clearTimeout_def setTimeout_def in_window_def pending_def Let_def)
  qed
qed

lemma window_tick:
  assumes "in_window delay t0 st" "now < t0 + delay"
  shows "timeout_fires now st = (st, None)"
proof -
  from assms(1) consider "timeouts st = []" | i b where "timeouts st = [(i, t0 + delay, b)]"
    by (auto simp: in_window_def)
  then show ?thesis using assms(2)
    by cases (simp_all add: timeout_fires_def)
qed

lemma window_step:
  assumes "in_window delay t0 st" "t0 \<noteq> 0" "event_time e < t0 + delay"
  shows "snd (throttle_step delay True e st) = [] \<and>
         in_window delay t0 (fst (throttle_step delay True e st)) \<and>
         pending (fst (throttle_step delay True e st)) =
           (case last_call [e] of None \<Rightarrow> pending st | Some a \<Rightarrow> [(t0 + delay, a)])"
proof (cases e)
  case (Call now a)
  with assms(3) have "now < t0 + delay" by simp
  from window_call[OF assms(1,2) this, of a] show ?thesis
    using Call by (cases "throttled delay True now a st") simp
next
  case (Tick now)
  with assms(3) have "now < t0 + delay" by simp
  from window_tick[OF assms(1) this] show ?thesis
    using Tick assms(1) by simp
qed

lemma last_call_Cons:
  "last_call (e # es) = (case last_call es of None \<Rightarrow> last_call [e] | Some a \<Rightarrow> Some a)"
  by (cases e) (simp_all split: option.splits)

lemma window_run:
  assumes "t0 \<noteq> 0"
  shows "in_window delay t0 st \<Longrightarrow> \<forall>e \<in> set es. event_time e < t0 + delay \<Longrightarrow>
         snd (throttle_run delay True es st) = [] \<and>
         in_window delay t0 (fst (throttle_run delay True es st)) \<and>
         pending (fst (throttle_run delay True es st)) =
           (case last_call es of None \<Rightarrow> pending st | Some a \<Rightarrow> [(t0 + delay, a)])"
proof (induction es arbitrary: st)
  case Nil
  then show ?case by simp
next
  case (Cons e es)
  obtain st1 out1 where s1: "throttle_step delay True e st = (st1, out1)"
    by (cases "throttle_step delay True e st")
  from Cons.prems(2) have e: "event_time e < t0 + delay" by simp
  from window_step[OF Cons.prems(1) assms e] s1
  have o1: "out1 = []" and w1: "in_window delay t0 st1"
    and p1: "pending st1 = (case last_call [e] of None \<Rightarrow> pending st | Some a \<Rightarrow> [(t0 + delay, a)])"
    by simp_all
  from Cons.prems(2) have "\<forall>e \<in> set es. event_time e < t0 + delay" by simp
  from Cons.IH[OF w1 this]
  have o2: "snd (throttle_run delay True es st1) = []"
    and w2: "in_window delay t0 (fst (throttle_run delay True es st1))"
    and p2: "pending (fst (throttle_run delay True es st1)) =
           (case last_call es of None \<Rightarrow> pending st1 | Some a \<Rightarrow> [(t0 + delay, a)])"
    by simp_all
  have r: "throttle_run delay True (e # es) st =
           (fst (throttle_run delay True es st1), snd (throttle_run delay True es st1))"
    using s1 o1 by (simp split: prod.splits)
  show ?case
    unfolding r using o2 w2 p2 p1 by (simp add: last_call_Cons[of e es] split: option.splits)
qed

lemma first_call:
  assumes "0 < delay" "timeouts st = []" "lastTime st = 0 \<or> delay \<le> t0 - lastTime st"
  shows "throttled delay True t0 a0 st = (st\<lparr>lastTime := t0\<rparr>, Some a0) \<and>
         in_window delay t0 (st\<lparr>lastTime := t0\<rparr>) \<and> pending (st\<lparr>lastTime := t0\<rparr>) = []"
  using assms by (auto simp: throttled_def in_window_def pending_def)

lemma window_end:
  assumes "in_window delay t0 st" "t0 + delay \<le> t"
  shows "snd (timeout_fires t st) = (case pending st of [] \<Rightarrow> None | (due, a) # ps \<Rightarrow> Some a)"
proof -
  from assms(1) consider "timeouts st = []" | i b where "timeouts st = [(i, t0 + delay, b)]"
    by (auto simp: in_window_def)
  then show ?thesis using assms(2)
    by cases (simp_all add: timeout_fires_def pending_def)
qed

text \<open>
  Claim C5, amended. Take a throttle with no pending timeout that has never fired or last
  fired at least one window ago, and a burst that starts with a call at time \<open>t0 > 0\<close>, all
  further calls (and timer ticks) falling within the window \<open>[t0, t0 + delay)\<close>. The first call
  is delivered at once and nothing else is delivered within the window. The later calls are
  not all suppressed: the last of them is kept in a timeout due at \<open>t0 + delay\<close>, the end of
  the window, and is delivered when that timeout runs; the calls before it are dropped.
\<close>

theorem throttle_burst:
  assumes "0 < delay" "0 < t0" "timeouts st = []" "lastTime st = 0 \<or> delay \<le> t0 - lastTime st"
    and "\<forall>e \<in> set es. t0 \<le> event_time e \<and> event_time e < t0 + delay"
  shows "snd (throttle_run delay True (Call t0 a0 # es) st) = [(t0, a0)] \<and>
         pending (fst (throttle_run delay True (Call t0 a0 # es) st)) =
           (case last_call es of None \<Rightarrow> [] | Some a \<Rightarrow> [(t0 + delay, a)]) \<and>
         (\<forall>t. t0 + delay \<le> t \<longrightarrow>
            snd (throttle_run delay True (Call t0 a0 # es @ [Tick t]) st) =
              (t0, a0) # (case last_call es of None \<Rightarrow> [] | Some a \<Rightarrow> [(t, a)]))"
proof -
  let ?st1 = "st\<lparr>lastTime := t0\<rparr>"
  from first_call[OF assms(1,3,4), of a0]
  have c: "throttled delay True t0 a0 st = (?st1, Some a0)" and w: "in_window delay t0 ?st1"
    and p: "pending ?st1 = []" by simp_all
  have ne: "t0 \<noteq> 0" using assms(2) by simp
  from assms(5) have win: "\<forall>e \<in> set es. event_time e < t0 + delay" by simp
  let ?r = "throttle_run delay True es ?st1"
  from window_run[OF ne w win]
  have o: "snd ?r = []" and w': "in_window delay t0 (fst ?r)"
    and p': "pending (fst ?r) = (case last_call es of None \<Rightarrow> [] | Some a \<Rightarrow> [(t0 + delay, a)])"
    using p by (simp_all split: option.splits)
  have hd: "throttle_run delay True (Call t0 a0 # xs) st =
            (fst (throttle_run delay True xs ?st1), (t0, a0) # snd (throttle_run delay True xs ?st1))" for xs
    using c by (simp split: prod.splits)
  have tick: "snd (throttle_run delay True (es @ [Tick t]) ?st1) =
              (case last_call es of None \<Rightarrow> [] | Some a \<Rightarrow> [(t, a)])" if "t0 + delay \<le> t" for t
  proof -
    have "snd (throttle_run delay True (es @ [Tick t]) ?st1) =
          snd ?r @ snd (throttle_step delay True (Tick t) (fst ?r))"
      by (simp add: throttle_run_append split: prod.splits)
    also have "\<dots> = (case snd (timeout_fires t (fst ?r)) of None \<Rightarrow> [] | Some a \<Rightarrow> [(t, a)])"
      using o by (simp split: prod.splits option.splits)
    also have "\<dots> = (case last_call es of None \<Rightarrow> [] | Some a \<Rightarrow> [(t, a)])"
      unfolding window_end[OF w' that] p' by (simp split: option.splits)
    finally show ?thesis .
  qed
  show ?thesis
    using o p' tick by (simp add: hd del: throttle_run.simps)
qed

text \<open>
  Claim C5 says that every event of a burst after the first is suppressed when it arrives
  within the throttle window. With the default window of 800 ms, of the calls at 1000, 1100
  and 1200 the first is delivered at once and the last one is delivered by the timer at 1800.
  In a pager with a duration of 500 ms, a wheel event at 1000 and a second one at 1100 give
  two accepted commands: the visual index goes from 1 to 2 and, when the timer runs, to 3.
\<close>

theorem throttle_burst_counterexample:
  "snd (throttle_run (throttle_delay (throttleTime default_config)) (throttle_immediate (Some True))
          [Call 1000 (1::nat), Call 1100 2, Call 1200 3, Tick 1800] throttle_init) =
     [(1000, 1), (1800, 3)] \<and>
   currentIndex quick_pager = js_int 1 \<and>
   currentIndex (run quick_pager
     [Dom (WheelEv 1000 wheel_down), HookSettles 0 True, AnimationFrame 1016,
      Dom (WheelEv 1100 wheel_down), AnimationFrame 1516]) = js_int 2 \<and>
   currentIndex (run quick_pager
     [Dom (WheelEv 1000 wheel_down), HookSettles 0 True, AnimationFrame 1016,
      Dom (WheelEv 1100 wheel_down), AnimationFrame 1516, Timeout 1800]) = js_int 3"
  by code_simp

theorem throttle_burst_witness:
  "(0::int) < 800 \<and> (0::int) < 1000 \<and> timeouts (throttle_init :: nat throttle_state) = [] \<and>
   lastTime (throttle_init :: nat throttle_state) = 0 \<and>
   map event_time [Call 1100 (2::nat), Tick 1150, Call 1200 3] = [1100, 1150, 1200] \<and>
   snd (throttle_run 800 True [Call 1000 1, Call 1100 (2::nat), Tick 1150, Call 1200 3] throttle_init) = [(1000, 1)] \<and>
   snd (throttle_run 800 True ([Call 1000 1, Call 1100 (2::nat), Tick 1150, Call 1200 3] @ [Tick 1800]) throttle_init) =
     [(1000, 1), (1800, 3)]"
proof -
  have t: "timeouts (throttle_init :: nat throttle_state) = []"
    "lastTime (throttle_init :: nat throttle_state) = 0"
    by (simp_all add: throttle_init_def)
  have w: "\<forall>e \<in> set [Call 1100 (2::nat), Tick 1150, Call 1200 3]. 1000 \<le> event_time e \<and> event_time e < 1000 + 800"
    by simp
  have l: "last_call [Call 1100 (2::nat), Tick 1150, Call 1200 3] = Some 3" by simp
  have t2: "lastTime (throttle_init :: nat throttle_state) = 0 \<or> 800 \<le> 1000 - lastTime (throttle_init :: nat throttle_state)"
    using t by simp
  from throttle_burst[of 800 1000 "throttle_init :: nat throttle_state" "[Call 1100 2, Tick 1150, Call 1200 3]" 1, OF _ _ t(1) t2 w]
  have "snd (throttle_run 800 True (Call 1000 1 # [Call 1100 (2::nat), Tick 1150, Call 1200 3]) throttle_init) = [(1000, 1)]"
    and "snd (throttle_run 800 True (Call 1000 1 # [Call 1100 (2::nat), Tick 1150, Call 1200 3] @ [Tick 1800]) throttle_init) =
     [(1000, 1), (1800, 3)]"
    unfolding l by simp_all
  then show ?thesis using t by simp
qed

end
